theory Spec2Isabelle
  imports Complex_Main
begin

section \<open>Data model\<close>

text \<open>
  The application keeps its state in React hooks of the component \<open>App\<close>. The two
  interfaces \<open>TextBlock\<close> and \<open>VideoSegment\<close> become records. The source names the
  identifier field of both \<open>id\<close> and the text field \<open>text\<close>; they are \<open>block_id\<close>,
  \<open>block_text\<close> and \<open>seg_id\<close> here.

  Identifiers are the strings \<open>crypto.randomUUID()\<close> returns. They are opaque and never
  empty, so a \<open>textId\<close> is truthy exactly when it is not \<open>null\<close>; the model draws them from
  a counter kept in the state, so that every call returns an identifier not returned
  before.

  Times are JavaScript numbers holding seconds. Every finite number is a rational, and
  the model keeps a time as the rational it is. On numbers the comparisons, the
  remainder \<open>%\<close> and \<open>toFixed\<close> are exact, in the code as here. Where the import reads
  and combines numbers (\<open>parseInt\<close>, \<open>parseFloat\<close>, the product, the sum and the
  difference of the tolerance test) the code rounds each result to the nearest number,
  and so does the model, with \<open>toDouble\<close> below. The division by 60 of the export is
  not rounded here. NaN and the infinities are outside the model.
\<close>

type_synonym ident = nat

record TextBlock =
  block_id :: ident
  block_text :: string

record VideoSegment =
  seg_id :: ident
  startTime :: rat
  endTime :: rat
  textId :: "ident option"

record App =
  duration :: rat
  segments :: "VideoSegment list"
  textBlocks :: "TextBlock list"
  lrcDuration :: rat
  importingLrc :: bool
  uuidCounter :: nat

text \<open>The initial values of the hooks.\<close>

definition initialApp :: App where
  "initialApp = \<lparr>duration = 0, segments = [], textBlocks = [], lrcDuration = 0,
                   importingLrc = False, uuidCounter = 0\<rparr>"

definition randomUUID :: "App \<Rightarrow> ident \<times> App" where
  "randomUUID st = (uuidCounter st, st\<lparr>uuidCounter := Suc (uuidCounter st)\<rparr>)"

section \<open>Numbers\<close>

text \<open>
  A number is a binary64 value: a sign, a significand of 53 bits and an exponent.
  \<open>toDouble x\<close> is the number nearest to the rational \<open>x\<close>, the one with the even
  significand when two are equally near: with \<open>e\<close> the exponent of \<open>x\<close> (not below
  -1022, where the subnormal numbers start) the numbers around \<open>x\<close> are the multiples of
  \<open>2 ^ (e - 52)\<close>. Values of magnitude \<open>2 ^ 1024\<close> and more, which the code turns into
  an infinity, are outside the model.
\<close>

text \<open>The number of binary digits of a positive integer.\<close>

function bits :: "int \<Rightarrow> nat" where
  "bits k = (if k \<le> 0 then 0 else Suc (bits (k div 2)))"
  by pat_completeness auto
termination
  by (relation "measure nat") auto

declare bits.simps [simp del]

text \<open>For \<open>x > 0\<close>, the integer \<open>e\<close> with \<open>2 ^ e \<le> x < 2 ^ (e + 1)\<close>.\<close>

definition ilog2 :: "rat \<Rightarrow> int" where
  "ilog2 x = (if 1 \<le> x then int (bits \<lfloor>x\<rfloor>) - 1 else - int (bits (\<lceil>1 / x\<rceil> - 1)))"

definition pow2 :: "int \<Rightarrow> rat" where
  "pow2 k = (if 0 \<le> k then 2 ^ nat k else 1 / 2 ^ nat (- k))"

definition roundHalfEven :: "rat \<Rightarrow> int" where
  "roundHalfEven q =
     (let f = \<lfloor>q\<rfloor>; r = q - of_int f
      in if r < 1 / 2 then f else if 1 / 2 < r then f + 1 else if even f then f else f + 1)"

definition toDouble :: "rat \<Rightarrow> rat" where
  "toDouble x =
     (if x = 0 then 0
      else (let a = \<bar>x\<bar>;
                e = max (ilog2 a) (- 1022);
                ulp = pow2 (e - 52)
            in sgn x * of_int (roundHalfEven (a / ulp)) * ulp))"

section \<open>Array helpers\<close>

text \<open>\<open>Array.prototype.findIndex\<close>: the first index whose element passes, \<open>None\<close> for -1.\<close>

fun findIndex :: "('a \<Rightarrow> bool) \<Rightarrow> 'a list \<Rightarrow> nat option" where
  "findIndex P [] = None"
| "findIndex P (x # xs) = (if P x then Some 0 else map_option Suc (findIndex P xs))"

text \<open>\<open>xs.splice(start, deleteCount, ...items)\<close> on a copy of the array.\<close>

definition splice :: "nat \<Rightarrow> nat \<Rightarrow> 'a list \<Rightarrow> 'a list \<Rightarrow> 'a list" where
  "splice start deleteCount items xs = take start xs @ items @ drop (start + deleteCount) xs"

section \<open>Timeline operations\<close>

text \<open>
  Each handler takes the state and returns the state after its \<open>setState\<close> calls.
  \<open>handleLoadedMetadata\<close> is given the duration it reads from the video element,
  \<open>splitSegment\<close> the playback position \<open>currentTime\<close> it has captured.
\<close>

definition handleLoadedMetadata :: "rat \<Rightarrow> App \<Rightarrow> App" where
  "handleLoadedMetadata d st =
     (let (u, st1) = randomUUID st
      in st1\<lparr>duration := d,
             segments := [\<lparr>seg_id = u, startTime = 0, endTime = d, textId = None\<rparr>]\<rparr>)"

definition splitSegment :: "rat \<Rightarrow> App \<Rightarrow> App" where
  "splitSegment time st =
     (let prev = segments st
      in case findIndex (\<lambda>s. time > startTime s \<and> time < endTime s) prev of
           None \<Rightarrow> st
         | Some index \<Rightarrow>
             (let target = prev ! index;
                  segA = target\<lparr>endTime := time\<rparr>;
                  (u, st1) = randomUUID st;
                  segB = \<lparr>seg_id = u, startTime = time, endTime = endTime target,
                          textId = None\<rparr>
              in st1\<lparr>segments := splice index 1 [segA, segB] prev\<rparr>))"

text \<open>\<open>current.textId || next.textId\<close>: the left one unless it is \<open>null\<close>.\<close>

definition orElse :: "'a option \<Rightarrow> 'a option \<Rightarrow> 'a option" where
  "orElse a b = (case a of Some x \<Rightarrow> Some x | None \<Rightarrow> b)"

definition mergeSegments :: "nat \<Rightarrow> App \<Rightarrow> App" where
  "mergeSegments segmentIndex st =
     (if int segmentIndex \<ge> int (length (segments st)) - 1 then st
      else
        (let prev = segments st;
             current = prev ! segmentIndex;
             next = prev ! (segmentIndex + 1)
         in st\<lparr>segments :=
                 splice segmentIndex 2
                   [current\<lparr>endTime := endTime next,
                            textId := orElse (textId current) (textId next)\<rparr>] prev\<rparr>))"

definition updateSegmentText :: "ident \<Rightarrow> ident option \<Rightarrow> App \<Rightarrow> App" where
  "updateSegmentText segmentId tid st =
     st\<lparr>segments := map (\<lambda>s. if seg_id s = segmentId then s\<lparr>textId := tid\<rparr> else s)
                        (segments st)\<rparr>"

definition deleteTextBlock :: "ident \<Rightarrow> App \<Rightarrow> App" where
  "deleteTextBlock i st =
     st\<lparr>textBlocks := filter (\<lambda>b. block_id b \<noteq> i) (textBlocks st),
        segments := map (\<lambda>s. if textId s = Some i then s\<lparr>textId := None\<rparr> else s)
                        (segments st)\<rparr>"

text \<open>
  \<open>updateTextBlock\<close> stores what the text area of a block holds when the edit ends; a
  text area takes line feeds (Shift and Enter).
\<close>

definition updateTextBlock :: "ident \<Rightarrow> string \<Rightarrow> App \<Rightarrow> App" where
  "updateTextBlock i txt st =
     st\<lparr>textBlocks := map (\<lambda>b. if block_id b = i then b\<lparr>block_text := txt\<rparr> else b)
                          (textBlocks st)\<rparr>"

section \<open>The partition invariant\<close>

text \<open>
  The invariant as the data model words it: the list is not empty, ordered by start
  time, each segment ends where the next one starts, the first starts at 0, the last
  ends at the duration, and every segment has \<open>startTime < endTime\<close>.
\<close>

definition partition_inv :: "rat \<Rightarrow> VideoSegment list \<Rightarrow> bool" where
  "partition_inv d segs =
     (segs \<noteq> [] \<and> sorted (map startTime segs) \<and>
      (\<forall>i. Suc i < length segs \<longrightarrow> endTime (segs ! i) = startTime (segs ! Suc i)) \<and>
      startTime (hd segs) = 0 \<and> endTime (last segs) = d \<and>
      (\<forall>s\<in>set segs. startTime s < endTime s))"

text \<open>
  For the proofs the same shape is followed along the list: \<open>chain a segs b\<close> says that
  the segments lead from \<open>a\<close> to \<open>b\<close> without gap, each of them with a positive length.
\<close>

fun chain :: "rat \<Rightarrow> VideoSegment list \<Rightarrow> rat \<Rightarrow> bool" where
  "chain a [] b = (a = b)"
| "chain a (s # ss) b = (startTime s = a \<and> a < endTime s \<and> chain (endTime s) ss b)"

definition timeline_ok :: "App \<Rightarrow> bool" where
  "timeline_ok st = (segments st \<noteq> [] \<and> chain 0 (segments st) (duration st))"

text \<open>
  The three operations of the timeline and a run of them from left to right: Initialize
  is \<open>handleLoadedMetadata\<close>, Split is \<open>splitSegment\<close>, Merge is \<open>mergeSegments\<close>.
\<close>

datatype timeline_op = Initialize rat | Split rat | Merge nat

fun apply_op :: "App \<Rightarrow> timeline_op \<Rightarrow> App" where
  "apply_op st (Initialize d) = handleLoadedMetadata d st"
| "apply_op st (Split t) = splitSegment t st"
| "apply_op st (Merge i) = mergeSegments i st"

definition run_ops :: "App \<Rightarrow> timeline_op list \<Rightarrow> App" where
  "run_ops st ops = foldl apply_op st ops"

section \<open>Encoding: the export of an LRC document\<close>

text \<open>
  \<open>formatLrcTime\<close> is the local function of \<open>exportLRC\<close>. Its pieces are the library
  functions it calls: \<open>Number.prototype.toString\<close> on the integer \<open>Math.floor\<close> returns
  (\<open>toStringInt\<close>), \<open>String.prototype.padStart\<close>, the remainder operator \<open>%\<close>, whose result
  has the sign of the dividend (\<open>jsRem\<close>), and \<open>toFixed(2)\<close>, which takes the integer \<open>n\<close>
  nearest to \<open>100 * x\<close> (the larger one on a tie), writes its digits, pads them to three
  and puts the point before the last two.
\<close>

definition digitChar :: "nat \<Rightarrow> char" where
  "digitChar d = ''0123456789'' ! d"

fun showNat :: "nat \<Rightarrow> string" where
  "showNat n = (if n < 10 then [digitChar n] else showNat (n div 10) @ [digitChar (n mod 10)])"

declare showNat.simps [simp del]

definition toStringInt :: "int \<Rightarrow> string" where
  "toStringInt m = (if m < 0 then ''-'' @ showNat (nat (- m)) else showNat (nat m))"

definition padStart :: "nat \<Rightarrow> char \<Rightarrow> string \<Rightarrow> string" where
  "padStart n c s = replicate (n - length s) c @ s"

definition toFixed2 :: "rat \<Rightarrow> string" where
  "toFixed2 x =
     (let sgn = (if x < 0 then ''-'' else '''');
          n = nat \<lfloor>\<bar>x\<bar> * 100 + 1 / 2\<rfloor>;
          m = padStart 3 CHR ''0'' (showNat n);
          k = length m
      in sgn @ take (k - 2) m @ ''.'' @ drop (k - 2) m)"

definition jsRem :: "rat \<Rightarrow> rat \<Rightarrow> rat" where
  "jsRem x y = x - y * of_int (if x / y < 0 then \<lceil>x / y\<rceil> else \<lfloor>x / y\<rfloor>)"

definition formatLrcTime :: "rat \<Rightarrow> string" where
  "formatLrcTime seconds =
     (let m = \<lfloor>seconds / 60\<rfloor>;
          sRem = toFixed2 (jsRem seconds 60)
      in ''['' @ padStart 2 CHR ''0'' (toStringInt m) @ '':'' @ padStart 5 CHR ''0'' sRem @ '']'')"

text \<open>The body of the \<open>map\<close> callback of \<open>exportLRC\<close>: the line of one segment.\<close>

definition lrcLine :: "TextBlock list \<Rightarrow> VideoSegment \<Rightarrow> string" where
  "lrcLine blocks s =
     (let block = (case textId s of
                     Some i \<Rightarrow> find (\<lambda>b. block_id b = i) blocks
                   | None \<Rightarrow> None);
          blockText = (case block of Some b \<Rightarrow> block_text b | None \<Rightarrow> '''')
      in formatLrcTime (startTime s) @ blockText)"

text \<open>\<open>Array.prototype.join\<close>\<close>

fun join :: "string \<Rightarrow> string list \<Rightarrow> string" where
  "join sep [] = ''''"
| "join sep [x] = x"
| "join sep (x # y # ys) = x @ sep @ join sep (y # ys)"

definition newline :: char where
  "newline = CHR 0x0A"

text \<open>
  The document \<open>exportLRC\<close> hands to the download, in the file that also imports LRC
  documents (its comment: the export supports segments without a subtitle).
\<close>

definition exportLRC :: "App \<Rightarrow> string" where
  "exportLRC st = join [newline] (map (lrcLine (textBlocks st)) (segments st))"

text \<open>
  The other copy of the component has no import and an older \<open>exportLRC\<close>: it first
  filters the segments on \<open>s.textId\<close>, maps a segment whose block is missing to \<open>null\<close>, and
  filters the lines with \<open>Boolean\<close>.
\<close>

definition exportLRC_part000 :: "App \<Rightarrow> string" where
  "exportLRC_part000 st =
     (let lrcLines =
            filter (\<lambda>l. l \<noteq> None \<and> l \<noteq> Some '''')
              (map (\<lambda>s. case find (\<lambda>b. Some (block_id b) = textId s) (textBlocks st) of
                          None \<Rightarrow> None
                        | Some block \<Rightarrow> Some (formatLrcTime (startTime s) @ block_text block))
                 (filter (\<lambda>s. textId s \<noteq> None) (segments st)))
      in join [newline] (map the lrcLines))"

text \<open>
  In both copies the export button, the only caller of \<open>exportLRC\<close>, is disabled unless
  \<open>segments.some(s => s.textId)\<close>.
\<close>

definition exportEnabled :: "App \<Rightarrow> bool" where
  "exportEnabled st = list_ex (\<lambda>s. textId s \<noteq> None) (segments st)"

section \<open>Decoding: the import of an LRC document\<close>

text \<open>
  A \<open>string\<close> is a list of 8-bit characters, read here as the code units below 256 of
  the file's text. \<open>\d\<close> matches the ten ASCII digits only; \<open>trim\<close> removes the white
  space of that range (tab, line feed, vertical tab, form feed, carriage return, space
  and no-break space).
\<close>

definition isDigit :: "char \<Rightarrow> bool" where
  "isDigit c = (c \<in> set ''0123456789'')"

definition digitVal :: "char \<Rightarrow> nat" where
  "digitVal c = of_char c - 48"

definition isSpace :: "char \<Rightarrow> bool" where
  "isSpace c = (c \<in> set [CHR 0x09, CHR 0x0A, CHR 0x0B, CHR 0x0C, CHR 0x0D, CHR 0x20, CHR 0xA0])"

text \<open>The characters a time tag is made of.\<close>

definition lrcTimeChar :: "char \<Rightarrow> bool" where
  "lrcTimeChar c = (isDigit c \<or> c = CHR ''['' \<or> c = CHR '']'' \<or> c = CHR '':'' \<or> c = CHR ''.'' \<or>
                    c = CHR ''-'')"

definition trim :: "string \<Rightarrow> string" where
  "trim s = rev (dropWhile isSpace (rev (dropWhile isSpace s)))"

text \<open>\<open>text.split(c)\<close> for a separator of one character; the empty text gives one empty piece.\<close>

fun split_str :: "char \<Rightarrow> string \<Rightarrow> string list" where
  "split_str c [] = [[]]"
| "split_str c (x # xs) =
     (if x = c then [] # split_str c xs
      else (case split_str c xs of l # ls \<Rightarrow> (x # l) # ls | [] \<Rightarrow> [[x]]))"

text \<open>
  \<open>handleBulkImport\<close> on the text pasted into the form: one new block for each line
  that is not empty after trimming, appended to the library.
\<close>

fun newBlocksOf :: "string list \<Rightarrow> App \<Rightarrow> TextBlock list \<times> App" where
  "newBlocksOf [] st = ([], st)"
| "newBlocksOf (line # ls) st =
     (let (u, st1) = randomUUID st;
          (bs, st2) = newBlocksOf ls st1
      in (\<lparr>block_id = u, block_text = line\<rparr> # bs, st2))"

definition handleBulkImport :: "string \<Rightarrow> App \<Rightarrow> App" where
  "handleBulkImport text st =
     (if trim text = [] then st
      else (let lines = filter (\<lambda>l. length l > 0) (map trim (split_str newline text));
                (newBlocks, st1) = newBlocksOf lines st
            in st1\<lparr>textBlocks := textBlocks st @ newBlocks\<rparr>))"

text \<open>
  A state the user reaches: a video of 10 seconds is loaded, the timeline is split at 5,
  the text A is pasted into the library and dropped onto the first segment.
\<close>

definition exampleTimeline :: App where
  "exampleTimeline =
     updateSegmentText 0 (Some 2)
       (handleBulkImport ''A'' (splitSegment 5 (handleLoadedMetadata 10 initialApp)))"

text \<open>
  The regular expression \<open>\[(\d+):(\d+(\.\d+)?)\]\<close>, tried at the start of \<open>s\<close>. Each
  \<open>\d+\<close> is greedy, and what must follow it (a colon, a point or a closing bracket) is not
  a digit, so giving digits back never helps, and when the optional fraction cannot be
  completed the character at that place is a point, not the closing bracket: the first
  attempt is the only one that can succeed. The result holds the two capture groups and
  the text after the match.
\<close>

definition optFraction :: "string \<Rightarrow> string \<times> string" where
  "optFraction s =
     (case s of
        c # f \<Rightarrow>
          if c = CHR ''.'' \<and> takeWhile isDigit f \<noteq> []
          then (c # takeWhile isDigit f, dropWhile isDigit f)
          else ([], s)
      | [] \<Rightarrow> ([], s))"

definition matchTag :: "string \<Rightarrow> (string \<times> string \<times> string) option" where
  "matchTag s =
     (case s of
        [] \<Rightarrow> None
      | c # r1 \<Rightarrow>
          if c \<noteq> CHR ''['' \<or> takeWhile isDigit r1 = [] then None
          else
            (case dropWhile isDigit r1 of
               [] \<Rightarrow> None
             | c2 # r3 \<Rightarrow>
                 if c2 \<noteq> CHR '':'' \<or> takeWhile isDigit r3 = [] then None
                 else
                   (case optFraction (dropWhile isDigit r3) of
                      (fr, r5) \<Rightarrow>
                        (case r5 of
                           [] \<Rightarrow> None
                         | c3 # r6 \<Rightarrow>
                             if c3 = CHR '']''
                             then Some (takeWhile isDigit r1, takeWhile isDigit r3 @ fr, r6)
                             else None))))"

lemma optFraction_id: "optFraction s = (fr, r) \<Longrightarrow> fr @ r = s"
  by (auto simp: optFraction_def split: list.splits if_splits)

lemma matchTag_Some:
  assumes "matchTag s = Some (m, sec, rest)"
  shows "s = CHR ''['' # m @ CHR '':'' # sec @ CHR '']'' # rest"
proof -
  from assms obtain r1 where s: "s = CHR ''['' # r1" and m: "m = takeWhile isDigit r1"
    by (auto simp: matchTag_def split: list.splits if_splits prod.splits)
  from assms s obtain r3 where r1: "dropWhile isDigit r1 = CHR '':'' # r3"
    by (auto simp: matchTag_def split: list.splits if_splits prod.splits)
  from assms s r1 obtain fr where fr: "optFraction (dropWhile isDigit r3) = (fr, CHR '']'' # rest)"
    and sec: "sec = takeWhile isDigit r3 @ fr"
    by (auto simp: matchTag_def split: list.splits if_splits prod.splits)
  have "r1 = m @ CHR '':'' # r3"
    using takeWhile_dropWhile_id [of isDigit r1] by (simp add: m r1)
  moreover have "r3 = sec @ CHR '']'' # rest"
    using takeWhile_dropWhile_id [of isDigit r3] optFraction_id [OF fr] by (simp add: sec)
  ultimately show ?thesis by (simp add: s)
qed

lemma matchTag_shorter: "matchTag s = Some (m, sec, rest) \<Longrightarrow> length rest < length s"
  by (drule matchTag_Some) simp

text \<open>
  \<open>line.matchAll(re)\<close> with the global flag: the matches from left to right, each search
  starting where the last match ended, one character further on after a failure.
\<close>

function matchAll :: "string \<Rightarrow> (string \<times> string) list" where
  "matchAll [] = []"
| "matchAll (c # cs) =
     (case matchTag (c # cs) of
        Some (m, sec, rest) \<Rightarrow> (m, sec) # matchAll rest
      | None \<Rightarrow> matchAll cs)"
  by pat_completeness auto
termination
  by (relation "measure length") (auto dest: matchTag_shorter)

text \<open>\<open>line.replace(re, '')\<close> with the same expression.\<close>

function stripTags :: "string \<Rightarrow> string" where
  "stripTags [] = []"
| "stripTags (c # cs) =
     (case matchTag (c # cs) of
        Some (m, sec, rest) \<Rightarrow> stripTags rest
      | None \<Rightarrow> c # stripTags cs)"
  by pat_completeness auto
termination
  by (relation "measure length") (auto dest: matchTag_shorter)

text \<open>
  \<open>parseInt\<close> and \<open>parseFloat\<close> on the text of the capture groups: digits, and digits
  with an optional fraction. Each returns the number nearest to the decimal value it
  reads.
\<close>

definition digitsValue :: "string \<Rightarrow> nat" where
  "digitsValue s = foldl (\<lambda>a c. 10 * a + digitVal c) 0 s"

definition parseInt :: "string \<Rightarrow> rat" where
  "parseInt s = toDouble (of_nat (digitsValue s))"

definition parseFloat :: "string \<Rightarrow> rat" where
  "parseFloat s =
     (case dropWhile isDigit s of
        [] \<Rightarrow> toDouble (of_nat (digitsValue (takeWhile isDigit s)))
      | c # f \<Rightarrow>
          if c = CHR ''.''
          then toDouble (of_nat (digitsValue (takeWhile isDigit s)) +
                 of_nat (digitsValue (takeWhile isDigit f)) / 10 ^ length (takeWhile isDigit f))
          else toDouble (of_nat (digitsValue (takeWhile isDigit s))))"

record LrcEntry =
  entry_time :: rat
  entry_text :: string

text \<open>
  The body of the inner \<open>forEach\<close> of \<open>parseLRCFile\<close>, on the pair (\<open>entries\<close>, \<open>maxTime\<close>)
  it updates, and the body of the outer one.
\<close>

definition pushMatch ::
  "string \<Rightarrow> LrcEntry list \<times> rat \<Rightarrow> string \<times> string \<Rightarrow> LrcEntry list \<times> rat" where
  "pushMatch line acc match =
     (case acc of (entries, maxTime) \<Rightarrow>
        (let minutes = parseInt (fst match);
             seconds = parseFloat (snd match);
             timeInSeconds = toDouble (toDouble (minutes * 60) + seconds);
             txt = trim (stripTags line)
         in if length txt > 0 \<or> timeInSeconds > 0
            then (entries @ [\<lparr>entry_time = timeInSeconds, entry_text = txt\<rparr>],
                  max maxTime timeInSeconds)
            else (entries, maxTime)))"

definition scanLine :: "LrcEntry list \<times> rat \<Rightarrow> string \<Rightarrow> LrcEntry list \<times> rat" where
  "scanLine acc line = foldl (pushMatch line) acc (matchAll line)"

text \<open>
  What the two loops of \<open>parseLRCFile\<close> keep true of (\<open>entries\<close>, \<open>maxTime\<close>): no
  time is negative, \<open>maxTime\<close> is 0 while nothing has been pushed and the largest
  pushed time afterwards.
\<close>

definition scan_inv :: "LrcEntry list \<times> rat \<Rightarrow> bool" where
  "scan_inv acc = (case acc of (entries, maxTime) \<Rightarrow>
     (\<forall>e\<in>set entries. 0 \<le> entry_time e \<and> entry_time e \<le> maxTime) \<and>
     (entries = [] \<longrightarrow> maxTime = 0) \<and>
     (entries \<noteq> [] \<longrightarrow> (\<exists>e\<in>set entries. entry_time e = maxTime)))"

text \<open>The time \<open>pushMatch\<close> computes from the capture groups of a match.\<close>

definition matchTime :: "string \<times> string \<Rightarrow> rat" where
  "matchTime match = toDouble (toDouble (parseInt (fst match) * 60) + parseFloat (snd match))"

text \<open>
  \<open>new Map(pairs)\<close> sets the pairs in turn: a key already present keeps its place and
  takes the new value. The key of an entry is the template string of its time and its
  text with a hyphen between them, which tells two entries apart exactly when their time
  or their text differ; the model uses the pair.
\<close>

fun mapSet :: "('k \<times> 'v) list \<Rightarrow> 'k \<Rightarrow> 'v \<Rightarrow> ('k \<times> 'v) list" where
  "mapSet [] k v = [(k, v)]"
| "mapSet ((k', v') # kvs) k v = (if k' = k then (k', v) # kvs else (k', v') # mapSet kvs k v)"

definition newMap :: "('k \<times> 'v) list \<Rightarrow> ('k \<times> 'v) list" where
  "newMap kvs = foldl (\<lambda>m kv. mapSet m (fst kv) (snd kv)) [] kvs"

definition entryKey :: "LrcEntry \<Rightarrow> rat \<times> string" where
  "entryKey entry = (entry_time entry, entry_text entry)"

text \<open>\<open>Array.prototype.sort\<close> is stable, as \<open>sort_key\<close> is.\<close>

definition parseLRCFile :: "string \<Rightarrow> LrcEntry list \<times> rat" where
  "parseLRCFile text =
     (let lines = filter (\<lambda>line. trim line \<noteq> []) (split_str newline text);
          (entries, maxTime) = foldl scanLine ([], 0) lines;
          uniqueEntries = map snd (newMap (map (\<lambda>entry. (entryKey entry, entry)) entries))
      in (sort_key entry_time uniqueEntries, maxTime))"

text \<open>
  \<open>handleLrcImport\<close> on the text of the chosen file. It returns what the alert reports
  and the new state; the two failures return the state they were given.
\<close>

datatype alert = NoEntries | DurationMismatch rat rat | ImportSuccess nat nat

fun newTextBlocksOf :: "LrcEntry list \<Rightarrow> App \<Rightarrow> TextBlock list \<times> App" where
  "newTextBlocksOf [] st = ([], st)"
| "newTextBlocksOf (entry # es) st =
     (let (u, st1) = randomUUID st;
          (bs, st2) = newTextBlocksOf es st1
      in (\<lparr>block_id = u, block_text = entry_text entry\<rparr> # bs, st2))"

text \<open>
  The test \<open>Math.abs(e.time - startTime) < 0.01\<close> of the lookup: the difference is
  rounded, and the bound is the number nearest to 0.01.
\<close>

definition nearStart :: "rat \<Rightarrow> rat \<Rightarrow> bool" where
  "nearStart t startT = (\<bar>toDouble (t - startT)\<bar> < toDouble (1 / 100))"

text \<open>The \<open>textId\<close> of the segment that starts at \<open>startT\<close>.\<close>

definition segmentTextId :: "LrcEntry list \<Rightarrow> TextBlock list \<Rightarrow> rat \<Rightarrow> ident option" where
  "segmentTextId entries newTextBlocks startT =
     (case find (\<lambda>e. nearStart (entry_time e) startT) entries of
        None \<Rightarrow> None
      | Some entry \<Rightarrow>
          if entry_text entry \<noteq> []
          then (case find (\<lambda>b. block_text b = entry_text entry) newTextBlocks of
                  None \<Rightarrow> None
                | Some b \<Rightarrow> Some (block_id b))
          else None)"

text \<open>The loop over \<open>allTimes\<close>: one segment for each pair of neighbours.\<close>

fun buildSegments ::
  "LrcEntry list \<Rightarrow> TextBlock list \<Rightarrow> rat list \<Rightarrow> App \<Rightarrow> VideoSegment list \<times> App" where
  "buildSegments entries newTextBlocks (startT # endT # rest) st =
     (let (u, st1) = randomUUID st;
          seg = \<lparr>seg_id = u, startTime = startT, endTime = endT,
                 textId = segmentTextId entries newTextBlocks startT\<rparr>;
          (segs, st2) = buildSegments entries newTextBlocks (endT # rest) st1
      in (seg # segs, st2))"
| "buildSegments entries newTextBlocks allTimes st = ([], st)"

definition allTimesOf :: "LrcEntry list \<Rightarrow> rat \<Rightarrow> rat list" where
  "allTimesOf entries d =
     (let timePoints = map entry_time entries
      in [0] @ filter (\<lambda>t. t > 0 \<and> t < d) timePoints @ [d])"

definition handleLrcImport :: "string \<Rightarrow> App \<Rightarrow> alert \<times> App" where
  "handleLrcImport text st =
     (let (entries, maxTime) = parseLRCFile text
      in if length entries = 0 then (NoEntries, st)
         else if duration st > 0 \<and> duration st < maxTime
         then (DurationMismatch maxTime (duration st), st)
         else
           (let st1 = st\<lparr>lrcDuration := maxTime\<rparr>;
                (newTextBlocks, st2) =
                   newTextBlocksOf (filter (\<lambda>entry. length (entry_text entry) > 0) entries) st1;
                st3 = (if duration st > 0
                       then (let (newSegments, st') =
                                    buildSegments entries newTextBlocks
                                      (allTimesOf entries (duration st)) st2
                             in st'\<lparr>segments := newSegments\<rparr>)
                       else st2)
            in (ImportSuccess (length entries) (length newTextBlocks),
                st3\<lparr>textBlocks := newTextBlocks, importingLrc := False\<rparr>)))"

section \<open>Properties of the timeline operations\<close>

lemma findIndex_None: "findIndex P xs = None \<longleftrightarrow> (\<forall>x\<in>set xs. \<not> P x)"
  by (induction xs) auto

lemma findIndex_Some:
  "findIndex P xs = Some i \<longleftrightarrow> i < length xs \<and> P (xs ! i) \<and> (\<forall>j<i. \<not> P (xs ! j))"
proof (induction xs arbitrary: i)
  case Nil
  then show ?case by simp
next
  case (Cons x xs)
  show ?case
  proof (cases "P x")
    case True
    then show ?thesis by (cases i) auto
  next
    case False
    show ?thesis
    proof (cases i)
      case 0
      with False show ?thesis by auto
    next
      case (Suc k)
      have "(\<forall>j<Suc k. \<not> P ((x # xs) ! j)) \<longleftrightarrow> (\<forall>j<k. \<not> P (xs ! j))"
        using False by (auto simp: less_Suc_eq_0_disj)
      with False Suc Cons.IH [of k] show ?thesis by auto
    qed
  qed
qed

lemma chain_append:
  "chain a (xs @ ys) b \<longleftrightarrow> (\<exists>m. chain a xs m \<and> chain m ys b)"
  by (induction xs arbitrary: a) auto

lemma chain_le: "chain a segs b \<Longrightarrow> a \<le> b"
  by (induction segs arbitrary: a) fastforce+

lemma chain_starts_ge: "chain a segs b \<Longrightarrow> s \<in> set segs \<Longrightarrow> a \<le> startTime s"
proof (induction segs arbitrary: a)
  case Nil
  then show ?case by simp
next
  case (Cons x xs)
  then show ?case by fastforce
qed

lemma chain_ends_le: "chain a segs b \<Longrightarrow> s \<in> set segs \<Longrightarrow> endTime s \<le> b"
proof (induction segs arbitrary: a)
  case Nil
  then show ?case by simp
next
  case (Cons x xs)
  from Cons.prems have tl: "chain (endTime x) xs b" by simp
  show ?case
  proof (cases "s = x")
    case True
    with chain_le [OF tl] show ?thesis by simp
  next
    case False
    with Cons.prems have "s \<in> set xs" by simp
    from Cons.IH [OF tl this] show ?thesis .
  qed
qed

lemma chain_positive: "chain a segs b \<Longrightarrow> s \<in> set segs \<Longrightarrow> startTime s < endTime s"
  by (induction segs arbitrary: a) auto

lemma chain_sorted: "chain a segs b \<Longrightarrow> sorted (map startTime segs)"
proof (induction segs arbitrary: a)
  case Nil
  then show ?case by simp
next
  case (Cons x xs)
  from Cons.prems have tl: "chain (endTime x) xs b" and x: "startTime x < endTime x"
    by auto
  have "\<forall>s\<in>set xs. startTime x \<le> startTime s"
    using chain_starts_ge [OF tl] x by fastforce
  with Cons.IH [OF tl] show ?case by simp
qed

lemma chain_contiguous:
  "chain a segs b \<Longrightarrow> Suc i < length segs \<Longrightarrow> endTime (segs ! i) = startTime (segs ! Suc i)"
proof (induction segs arbitrary: a i)
  case Nil
  then show ?case by simp
next
  case (Cons x xs)
  show ?case
  proof (cases i)
    case 0
    with Cons.prems show ?thesis by (cases xs) auto
  next
    case (Suc k)
    with Cons.prems Cons.IH [of "endTime x" k] show ?thesis by simp
  qed
qed

lemma chain_hd: "chain a segs b \<Longrightarrow> segs \<noteq> [] \<Longrightarrow> startTime (hd segs) = a"
  by (cases segs) auto

lemma chain_last: "chain a segs b \<Longrightarrow> segs \<noteq> [] \<Longrightarrow> endTime (last segs) = b"
  by (induction segs arbitrary: a) (auto split: if_splits)

lemma chain_partition_inv: "segs \<noteq> [] \<Longrightarrow> chain 0 segs d \<Longrightarrow> partition_inv d segs"
  unfolding partition_inv_def
  using chain_sorted chain_contiguous chain_hd chain_last chain_positive by blast

lemma chain_disjoint_start:
  "chain a segs b \<Longrightarrow> s \<in> set segs \<Longrightarrow> s' \<in> set segs \<Longrightarrow>
     startTime s' \<le> startTime s \<or> endTime s \<le> startTime s'"
proof (induction segs arbitrary: a)
  case Nil
  then show ?case by simp
next
  case (Cons x xs)
  from Cons.prems have tl: "chain (endTime x) xs b" and x: "startTime x < endTime x"
    by auto
  consider "s = x" "s' = x" | "s = x" "s' \<in> set xs" | "s \<in> set xs" "s' = x"
    | "s \<in> set xs" "s' \<in> set xs"
    using Cons.prems by auto
  then show ?case
  proof cases
    case 1
    then show ?thesis by simp
  next
    case 2
    with chain_starts_ge [OF tl] show ?thesis by simp
  next
    case 3
    with chain_starts_ge [OF tl, of s] x show ?thesis by simp
  next
    case 4
    with Cons.IH [OF tl] show ?thesis by simp
  qed
qed

lemma chain_disjoint_end:
  "chain a segs b \<Longrightarrow> s \<in> set segs \<Longrightarrow> s' \<in> set segs \<Longrightarrow>
     endTime s' \<le> startTime s \<or> endTime s \<le> endTime s'"
proof (induction segs arbitrary: a)
  case Nil
  then show ?case by simp
next
  case (Cons x xs)
  from Cons.prems have tl: "chain (endTime x) xs b" and x: "startTime x < endTime x"
    by auto
  consider "s = x" "s' = x" | "s = x" "s' \<in> set xs" | "s \<in> set xs" "s' = x"
    | "s \<in> set xs" "s' \<in> set xs"
    using Cons.prems by auto
  then show ?case
  proof cases
    case 1
    then show ?thesis by simp
  next
    case 2
    with chain_starts_ge [OF tl, of s'] chain_positive [OF tl, of s'] show ?thesis by simp
  next
    case 3
    with chain_starts_ge [OF tl, of s] show ?thesis by simp
  next
    case 4
    with Cons.IH [OF tl] show ?thesis by simp
  qed
qed

lemma contiguous_chain:
  "segs \<noteq> [] \<Longrightarrow>
   \<forall>i. Suc i < length segs \<longrightarrow> endTime (segs ! i) = startTime (segs ! Suc i) \<Longrightarrow>
   \<forall>s\<in>set segs. startTime s < endTime s \<Longrightarrow>
   chain (startTime (hd segs)) segs (endTime (last segs))"
proof (induction segs)
  case Nil
  then show ?case by simp
next
  case (Cons x xs)
  show ?case
  proof (cases xs)
    case Nil
    with Cons.prems show ?thesis by simp
  next
    case (Cons y ys)
    have c: "\<forall>i. Suc i < length xs \<longrightarrow> endTime (xs ! i) = startTime (xs ! Suc i)"
    proof (intro allI impI)
      fix i assume "Suc i < length xs"
      with Cons.prems(2) have "endTime ((x # xs) ! Suc i) = startTime ((x # xs) ! Suc (Suc i))"
        by (metis Suc_less_eq length_Cons)
      then show "endTime (xs ! i) = startTime (xs ! Suc i)" by simp
    qed
    have "endTime ((x # xs) ! 0) = startTime ((x # xs) ! Suc 0)"
      using Cons.prems(2) Cons by (metis length_Cons zero_less_Suc Suc_less_eq)
    then have j: "endTime x = startTime (hd xs)" using Cons by simp
    have "chain (startTime (hd xs)) xs (endTime (last xs))"
      using Cons.IH c Cons.prems(3) Cons by simp
    with j Cons.prems(3) Cons show ?thesis by simp
  qed
qed

lemma partition_inv_chain:
  "partition_inv d segs \<longleftrightarrow> segs \<noteq> [] \<and> chain 0 segs d"
proof
  assume "partition_inv d segs"
  then show "segs \<noteq> [] \<and> chain 0 segs d"
    unfolding partition_inv_def using contiguous_chain [of segs] by auto
next
  assume "segs \<noteq> [] \<and> chain 0 segs d"
  then show "partition_inv d segs" by (simp add: chain_partition_inv)
qed

lemma chain_split:
  assumes "chain a segs b" and "i < length segs"
    and "startTime (segs ! i) < t" and "t < endTime (segs ! i)"
  shows "chain a (splice i 1 [(segs ! i)\<lparr>endTime := t\<rparr>,
            \<lparr>seg_id = u, startTime = t, endTime = endTime (segs ! i), textId = None\<rparr>] segs) b"
proof -
  have "segs = take i segs @ (segs ! i) # drop (Suc i) segs"
    using assms(2) by (simp add: id_take_nth_drop)
  with assms(1) have "chain a (take i segs @ (segs ! i) # drop (Suc i) segs) b" by simp
  then obtain m where "chain a (take i segs) m" and "chain m ((segs ! i) # drop (Suc i) segs) b"
    unfolding chain_append by blast
  with assms(3,4) show ?thesis
    unfolding splice_def chain_append by auto
qed

lemma chain_merge:
  assumes "chain a segs b" and "Suc i < length segs"
  shows "chain a (splice i 2 [(segs ! i)\<lparr>endTime := endTime (segs ! Suc i), textId := x\<rparr>] segs) b"
proof -
  have "segs = take i segs @ (segs ! i) # (segs ! Suc i) # drop (Suc (Suc i)) segs"
    using assms(2) by (metis Cons_nth_drop_Suc Suc_lessD id_take_nth_drop)
  with assms(1) have "chain a (take i segs @ (segs ! i) # (segs ! Suc i) # drop (Suc (Suc i)) segs) b"
    by simp
  then obtain m where "chain a (take i segs) m"
    and "chain m ((segs ! i) # (segs ! Suc i) # drop (Suc (Suc i)) segs) b"
    unfolding chain_append by blast
  then show ?thesis
    unfolding splice_def chain_append by auto
qed

lemma handleLoadedMetadata_ok: "0 < d \<Longrightarrow> timeline_ok (handleLoadedMetadata d st)"
  by (simp add: timeline_ok_def handleLoadedMetadata_def randomUUID_def)

lemma splitSegment_ok:
  assumes "timeline_ok st"
  shows "timeline_ok (splitSegment t st)"
proof (cases "findIndex (\<lambda>s. t > startTime s \<and> t < endTime s) (segments st)")
  case None
  with assms show ?thesis by (simp add: splitSegment_def)
next
  case (Some i)
  then have i: "i < length (segments st)" "startTime (segments st ! i) < t"
    "t < endTime (segments st ! i)"
    by (simp_all add: findIndex_Some)
  from assms have "chain 0 (segments st) (duration st)" by (simp add: timeline_ok_def)
  from chain_split [OF this i] Some show ?thesis
    by (simp add: timeline_ok_def splitSegment_def randomUUID_def splice_def Let_def)
qed

lemma mergeSegments_ok: "timeline_ok st \<Longrightarrow> timeline_ok (mergeSegments i st)"
  apply (auto simp: timeline_ok_def mergeSegments_def Let_def chain_merge)
  apply (auto simp: splice_def)
  done

lemma run_ops_ok:
  "timeline_ok st \<Longrightarrow> \<forall>d. Initialize d \<in> set ops \<longrightarrow> 0 < d \<Longrightarrow> timeline_ok (run_ops st ops)"
  unfolding run_ops_def
proof (induction ops arbitrary: st)
  case Nil
  then show ?case by simp
next
  case (Cons x xs)
  have "timeline_ok (apply_op st x)"
    using Cons.prems
    by (cases x) (auto simp: handleLoadedMetadata_ok splitSegment_ok mergeSegments_ok)
  with Cons show ?case by simp
qed

section \<open>Claims about the timeline\<close>

text \<open>
  C1. Starting from a fresh video load with a duration above 0, every sequence of
  Initialize (each with a duration above 0), Split and Merge operations leaves a segment
  list that is sorted by start time, in which consecutive segments share a boundary, whose
  first segment starts at 0 and whose last segment ends at the duration. The invariant
  proved also has every segment of positive length.
\<close>

theorem partition_invariant:
  assumes "0 < d0" and "\<forall>d. Initialize d \<in> set ops \<longrightarrow> 0 < d"
  shows "partition_inv (duration (run_ops (handleLoadedMetadata d0 st0) ops))
           (segments (run_ops (handleLoadedMetadata d0 st0) ops))"
proof -
  have "timeline_ok (handleLoadedMetadata d0 st0)"
    using assms(1) by (rule handleLoadedMetadata_ok)
  then have "timeline_ok (run_ops (handleLoadedMetadata d0 st0) ops)"
    using assms(2) by (rule run_ops_ok)
  then show ?thesis
    by (simp add: timeline_ok_def partition_inv_chain)
qed

theorem partition_invariant_witness:
  "segments (run_ops (handleLoadedMetadata 10 initialApp)
      [Split 4, Split 7, Merge 0, Split 4, Initialize 20, Split 5, Split 25, Merge 1, Merge 0]) =
     [\<lparr>seg_id = 4, startTime = 0, endTime = 20, textId = None\<rparr>]
   \<and> partition_inv 20 [\<lparr>seg_id = 4, startTime = 0, endTime = 20, textId = None\<rparr>]"
proof -
  let ?ops = "[Split 4, Split 7, Merge 0, Split 4, Initialize 20, Split 5, Split 25, Merge 1, Merge 0]"
  have e: "run_ops (handleLoadedMetadata 10 initialApp) ?ops =
     \<lparr>duration = 20, segments = [\<lparr>seg_id = 4, startTime = 0, endTime = 20, textId = None\<rparr>],
      textBlocks = [], lrcDuration = 0, importingLrc = False, uuidCounter = 6\<rparr>"
    by (simp add: run_ops_def handleLoadedMetadata_def splitSegment_def mergeSegments_def
        randomUUID_def initialApp_def splice_def orElse_def)
  have h: "\<forall>d. Initialize d \<in> set ?ops \<longrightarrow> 0 < d" by simp
  show ?thesis
    using partition_invariant [of 10 ?ops initialApp, OF _ h] unfolding e by simp
qed


text \<open>
  C5. When some segment has \<open>startTime < t < endTime\<close>, \<open>splitSegment\<close> replaces the first
  such segment (the only one in a partition) by \<open>[startTime, t)\<close>, which keeps the
  identifier and the text reference, and \<open>[t, endTime)\<close> with a fresh identifier and no
  text; the segments before and after it stay as they are. When no segment contains \<open>t\<close>
  strictly, the state is returned unchanged; on a partition this is the case for every
  \<open>t\<close> that is a boundary of a segment and for every \<open>t\<close> outside \<open>(0, duration)\<close>.
\<close>

theorem splitSegment_spec:
  "(i < length (segments st) \<and>
    startTime (segments st ! i) < t \<and> t < endTime (segments st ! i) \<and>
    (\<forall>j<i. \<not> (startTime (segments st ! j) < t \<and> t < endTime (segments st ! j)))
    \<longrightarrow> splitSegment t st =
          st\<lparr>uuidCounter := Suc (uuidCounter st),
             segments :=
               take i (segments st) @
               [\<lparr>seg_id = seg_id (segments st ! i), startTime = startTime (segments st ! i),
                 endTime = t, textId = textId (segments st ! i)\<rparr>,
                \<lparr>seg_id = uuidCounter st, startTime = t,
                 endTime = endTime (segments st ! i), textId = None\<rparr>] @
               drop (Suc i) (segments st)\<rparr>)
   \<and> ((\<forall>s\<in>set (segments st). \<not> (startTime s < t \<and> t < endTime s))
        \<longrightarrow> splitSegment t st = st)
   \<and> (partition_inv (duration st) (segments st) \<and>
        ((\<exists>s\<in>set (segments st). t = startTime s \<or> t = endTime s) \<or>
         t \<le> 0 \<or> duration st \<le> t)
        \<longrightarrow> splitSegment t st = st)"
proof (intro conjI impI)
  assume a: "i < length (segments st) \<and>
    startTime (segments st ! i) < t \<and> t < endTime (segments st ! i) \<and>
    (\<forall>j<i. \<not> (startTime (segments st ! j) < t \<and> t < endTime (segments st ! j)))"
  then have "findIndex (\<lambda>s. t > startTime s \<and> t < endTime s) (segments st) = Some i"
    by (simp add: findIndex_Some)
  then show "splitSegment t st =
          st\<lparr>uuidCounter := Suc (uuidCounter st),
             segments :=
               take i (segments st) @
               [\<lparr>seg_id = seg_id (segments st ! i), startTime = startTime (segments st ! i),
                 endTime = t, textId = textId (segments st ! i)\<rparr>,
                \<lparr>seg_id = uuidCounter st, startTime = t,
                 endTime = endTime (segments st ! i), textId = None\<rparr>] @
               drop (Suc i) (segments st)\<rparr>"
    by (simp add: splitSegment_def randomUUID_def splice_def Let_def)
next
  assume "\<forall>s\<in>set (segments st). \<not> (startTime s < t \<and> t < endTime s)"
  then have "findIndex (\<lambda>s. t > startTime s \<and> t < endTime s) (segments st) = None"
    by (simp add: findIndex_None)
  then show "splitSegment t st = st"
    by (simp add: splitSegment_def)
next
  assume a: "partition_inv (duration st) (segments st) \<and>
        ((\<exists>s\<in>set (segments st). t = startTime s \<or> t = endTime s) \<or>
         t \<le> 0 \<or> duration st \<le> t)"
  then have c: "chain 0 (segments st) (duration st)"
    by (simp add: partition_inv_chain)
  have "\<not> (startTime s < t \<and> t < endTime s)" if s: "s \<in> set (segments st)" for s
  proof -
    from a consider s' where "s' \<in> set (segments st)" "t = startTime s'"
      | s' where "s' \<in> set (segments st)" "t = endTime s'"
      | "t \<le> 0" | "duration st \<le> t"
      by blast
    then show ?thesis
    proof cases
      case 1
      with chain_disjoint_start [OF c s, of s'] show ?thesis by auto
    next
      case 2
      with chain_disjoint_end [OF c s, of s'] show ?thesis by auto
    next
      case 3
      with chain_starts_ge [OF c s] show ?thesis by auto
    next
      case 4
      with chain_ends_le [OF c s] show ?thesis by auto
    qed
  qed
  then have "findIndex (\<lambda>s. t > startTime s \<and> t < endTime s) (segments st) = None"
    by (simp add: findIndex_None)
  then show "splitSegment t st = st"
    by (simp add: splitSegment_def)
qed

theorem splitSegment_spec_witness:
  "splitSegment 6
     (initialApp\<lparr>duration := 10, uuidCounter := 2,
        segments := [\<lparr>seg_id = 0, startTime = 0, endTime = 4, textId = Some 7\<rparr>,
                     \<lparr>seg_id = 1, startTime = 4, endTime = 10, textId = Some 8\<rparr>]\<rparr>) =
   initialApp\<lparr>duration := 10, uuidCounter := 3,
        segments := [\<lparr>seg_id = 0, startTime = 0, endTime = 4, textId = Some 7\<rparr>,
                     \<lparr>seg_id = 1, startTime = 4, endTime = 6, textId = Some 8\<rparr>,
                     \<lparr>seg_id = 2, startTime = 6, endTime = 10, textId = None\<rparr>]\<rparr>
   \<and> splitSegment 4
     (initialApp\<lparr>duration := 10, uuidCounter := 2,
        segments := [\<lparr>seg_id = 0, startTime = 0, endTime = 4, textId = Some 7\<rparr>,
                     \<lparr>seg_id = 1, startTime = 4, endTime = 10, textId = Some 8\<rparr>]\<rparr>) =
   initialApp\<lparr>duration := 10, uuidCounter := 2,
        segments := [\<lparr>seg_id = 0, startTime = 0, endTime = 4, textId = Some 7\<rparr>,
                     \<lparr>seg_id = 1, startTime = 4, endTime = 10, textId = Some 8\<rparr>]\<rparr>"
proof -
  let ?st = "initialApp\<lparr>duration := 10, uuidCounter := 2,
        segments := [\<lparr>seg_id = 0, startTime = 0, endTime = 4, textId = Some 7\<rparr>,
                     \<lparr>seg_id = 1, startTime = 4, endTime = 10, textId = Some 8\<rparr>]\<rparr>"
  have p: "partition_inv (duration ?st) (segments ?st)"
    by (simp add: partition_inv_def initialApp_def less_Suc_eq)
  have b: "\<exists>s\<in>set (segments ?st). 4 = startTime s \<or> 4 = endTime s"
    by (simp add: initialApp_def)
  from splitSegment_spec [of 1 ?st 6] have "splitSegment 6 ?st =
      ?st\<lparr>uuidCounter := Suc (uuidCounter ?st),
         segments :=
           take 1 (segments ?st) @
           [\<lparr>seg_id = seg_id (segments ?st ! 1), startTime = startTime (segments ?st ! 1),
             endTime = 6, textId = textId (segments ?st ! 1)\<rparr>,
            \<lparr>seg_id = uuidCounter ?st, startTime = 6,
             endTime = endTime (segments ?st ! 1), textId = None\<rparr>] @
           drop (Suc 1) (segments ?st)\<rparr>"
    by (simp add: initialApp_def)
  moreover from splitSegment_spec [of 0 ?st 4] p b have "splitSegment 4 ?st = ?st"
    by blast
  ultimately show ?thesis by (simp add: initialApp_def)
qed


text \<open>
  C4. When the segment at \<open>i\<close> has a successor, \<open>mergeSegments i\<close> replaces the two by one
  segment that keeps the identifier and the start of the first, ends where the second
  ended, and references the text of the first when it has one and the text of the second
  otherwise; the segments before and after stay as they are, and so does the rest of the
  state. On the last index, and on any index beyond, the state is returned unchanged.
\<close>

theorem mergeSegments_spec:
  "(Suc i < length (segments st) \<longrightarrow>
      mergeSegments i st =
        st\<lparr>segments :=
             take i (segments st) @
             [\<lparr>seg_id = seg_id (segments st ! i), startTime = startTime (segments st ! i),
               endTime = endTime (segments st ! Suc i),
               textId = (case textId (segments st ! i) of
                           Some x \<Rightarrow> Some x
                         | None \<Rightarrow> textId (segments st ! Suc i))\<rparr>] @
             drop (i + 2) (segments st)\<rparr>)
   \<and> (length (segments st) \<le> Suc i \<longrightarrow> mergeSegments i st = st)"
  by (auto simp: mergeSegments_def splice_def orElse_def Let_def)

theorem mergeSegments_spec_witness:
  "mergeSegments 1
     (initialApp\<lparr>duration := 10,
        segments := [\<lparr>seg_id = 0, startTime = 0, endTime = 4, textId = Some 7\<rparr>,
                     \<lparr>seg_id = 1, startTime = 4, endTime = 6, textId = None\<rparr>,
                     \<lparr>seg_id = 2, startTime = 6, endTime = 10, textId = Some 9\<rparr>]\<rparr>) =
   initialApp\<lparr>duration := 10,
        segments := [\<lparr>seg_id = 0, startTime = 0, endTime = 4, textId = Some 7\<rparr>,
                     \<lparr>seg_id = 1, startTime = 4, endTime = 10, textId = Some 9\<rparr>]\<rparr>
   \<and> mergeSegments 2
     (initialApp\<lparr>duration := 10,
        segments := [\<lparr>seg_id = 0, startTime = 0, endTime = 4, textId = Some 7\<rparr>,
                     \<lparr>seg_id = 1, startTime = 4, endTime = 6, textId = None\<rparr>,
                     \<lparr>seg_id = 2, startTime = 6, endTime = 10, textId = Some 9\<rparr>]\<rparr>) =
   initialApp\<lparr>duration := 10,
        segments := [\<lparr>seg_id = 0, startTime = 0, endTime = 4, textId = Some 7\<rparr>,
                     \<lparr>seg_id = 1, startTime = 4, endTime = 6, textId = None\<rparr>,
                     \<lparr>seg_id = 2, startTime = 6, endTime = 10, textId = Some 9\<rparr>]\<rparr>"
proof -
  let ?st = "initialApp\<lparr>duration := 10,
        segments := [\<lparr>seg_id = 0, startTime = 0, endTime = 4, textId = Some 7\<rparr>,
                     \<lparr>seg_id = 1, startTime = 4, endTime = 6, textId = None\<rparr>,
                     \<lparr>seg_id = 2, startTime = 6, endTime = 10, textId = Some 9\<rparr>]\<rparr>"
  from mergeSegments_spec [of 1 ?st] have "mergeSegments 1 ?st =
        ?st\<lparr>segments :=
             take 1 (segments ?st) @
             [\<lparr>seg_id = seg_id (segments ?st ! 1), startTime = startTime (segments ?st ! 1),
               endTime = endTime (segments ?st ! Suc 1),
               textId = (case textId (segments ?st ! 1) of
                           Some x \<Rightarrow> Some x
                         | None \<Rightarrow> textId (segments ?st ! Suc 1))\<rparr>] @
             drop (1 + 2) (segments ?st)\<rparr>"
    by (simp add: initialApp_def)
  moreover from mergeSegments_spec [of 2 ?st] have "mergeSegments 2 ?st = ?st"
    by (simp add: initialApp_def)
  ultimately show ?thesis by (simp add: initialApp_def)
qed


text \<open>
  C8. \<open>deleteTextBlock i\<close> removes the entry \<open>i\<close> from the library and keeps the other
  entries in their order. It keeps the number of segments and, position by position,
  their identifier, start and end; the text reference becomes none where it was \<open>i\<close> and
  is kept everywhere else.
\<close>

theorem deleteTextBlock_cascade:
  "textBlocks (deleteTextBlock i st) = filter (\<lambda>b. block_id b \<noteq> i) (textBlocks st)
   \<and> (\<forall>b\<in>set (textBlocks (deleteTextBlock i st)). block_id b \<noteq> i)
   \<and> length (segments (deleteTextBlock i st)) = length (segments st)
   \<and> (\<forall>k<length (segments st).
        seg_id (segments (deleteTextBlock i st) ! k) = seg_id (segments st ! k) \<and>
        startTime (segments (deleteTextBlock i st) ! k) = startTime (segments st ! k) \<and>
        endTime (segments (deleteTextBlock i st) ! k) = endTime (segments st ! k) \<and>
        textId (segments (deleteTextBlock i st) ! k) =
          (if textId (segments st ! k) = Some i then None else textId (segments st ! k)))
   \<and> duration (deleteTextBlock i st) = duration st"
  by (simp add: deleteTextBlock_def)

theorem deleteTextBlock_cascade_witness:
  "deleteTextBlock 7
     (initialApp\<lparr>duration := 10,
        textBlocks := [\<lparr>block_id = 7, block_text = ''a''\<rparr>,
                       \<lparr>block_id = 9, block_text = ''b''\<rparr>],
        segments := [\<lparr>seg_id = 0, startTime = 0, endTime = 4, textId = Some 7\<rparr>,
                     \<lparr>seg_id = 1, startTime = 4, endTime = 6, textId = Some 9\<rparr>,
                     \<lparr>seg_id = 2, startTime = 6, endTime = 10, textId = Some 7\<rparr>]\<rparr>) =
   initialApp\<lparr>duration := 10,
        textBlocks := [\<lparr>block_id = 9, block_text = ''b''\<rparr>],
        segments := [\<lparr>seg_id = 0, startTime = 0, endTime = 4, textId = None\<rparr>,
                     \<lparr>seg_id = 1, startTime = 4, endTime = 6, textId = Some 9\<rparr>,
                     \<lparr>seg_id = 2, startTime = 6, endTime = 10, textId = None\<rparr>]\<rparr>
   \<and> startTime (segments (deleteTextBlock 7
     (initialApp\<lparr>duration := 10,
        textBlocks := [\<lparr>block_id = 7, block_text = ''a''\<rparr>,
                       \<lparr>block_id = 9, block_text = ''b''\<rparr>],
        segments := [\<lparr>seg_id = 0, startTime = 0, endTime = 4, textId = Some 7\<rparr>,
                     \<lparr>seg_id = 1, startTime = 4, endTime = 6, textId = Some 9\<rparr>,
                     \<lparr>seg_id = 2, startTime = 6, endTime = 10, textId = Some 7\<rparr>]\<rparr>)) ! 2) = 6"
proof -
  let ?st = "initialApp\<lparr>duration := 10,
        textBlocks := [\<lparr>block_id = 7, block_text = ''a''\<rparr>,
                       \<lparr>block_id = 9, block_text = ''b''\<rparr>],
        segments := [\<lparr>seg_id = 0, startTime = 0, endTime = 4, textId = Some 7\<rparr>,
                     \<lparr>seg_id = 1, startTime = 4, endTime = 6, textId = Some 9\<rparr>,
                     \<lparr>seg_id = 2, startTime = 6, endTime = 10, textId = Some 7\<rparr>]\<rparr>"
  have e: "deleteTextBlock 7 ?st = initialApp\<lparr>duration := 10,
        textBlocks := [\<lparr>block_id = 9, block_text = ''b''\<rparr>],
        segments := [\<lparr>seg_id = 0, startTime = 0, endTime = 4, textId = None\<rparr>,
                     \<lparr>seg_id = 1, startTime = 4, endTime = 6, textId = Some 9\<rparr>,
                     \<lparr>seg_id = 2, startTime = 6, endTime = 10, textId = None\<rparr>]\<rparr>"
    by (simp add: deleteTextBlock_def initialApp_def)
  have "\<forall>k<length (segments ?st).
          startTime (segments (deleteTextBlock 7 ?st) ! k) = startTime (segments ?st ! k)"
    using deleteTextBlock_cascade [of 7 ?st] by blast
  then have "startTime (segments (deleteTextBlock 7 ?st) ! 2) = 6"
    by (simp add: initialApp_def)
  with e show ?thesis by blast
qed

section \<open>Properties of the export\<close>

lemma showNat_small: "n < 10 \<Longrightarrow> showNat n = [digitChar n]"
  by (simp add: showNat.simps)

lemma showNat_big: "\<not> n < 10 \<Longrightarrow> showNat n = showNat (n div 10) @ [digitChar (n mod 10)]"
  by (subst showNat.simps) simp

lemmas encode_defs = formatLrcTime_def toFixed2_def jsRem_def padStart_def toStringInt_def
  showNat_small showNat_big digitChar_def

lemma floor_rat_divide_numeral:
  "\<lfloor>numeral a / numeral b :: rat\<rfloor> = numeral a div numeral b"
  using floor_divide_of_int_eq [of "numeral a" "numeral b", where ?'a = rat] by simp

lemmas encode_eval = encode_defs floor_rat_divide_numeral

lemma showNat_2: "10 \<le> n \<Longrightarrow> n < 100 \<Longrightarrow> showNat n = [digitChar (n div 10), digitChar (n mod 10)]"
  by (simp add: showNat_big showNat_small)

lemma showNat_3:
  "100 \<le> n \<Longrightarrow> n < 1000 \<Longrightarrow>
   showNat n = [digitChar (n div 100), digitChar (n div 10 mod 10), digitChar (n mod 10)]"
  by (simp add: showNat_big [of n] showNat_2 div_mult2_eq [symmetric])

lemma showNat_4:
  "1000 \<le> n \<Longrightarrow> n < 10000 \<Longrightarrow>
   showNat n = [digitChar (n div 1000), digitChar (n div 100 mod 10), digitChar (n div 10 mod 10),
                digitChar (n mod 10)]"
  by (simp add: showNat_big [of n] showNat_3 div_mult2_eq [symmetric])

lemma digitChar_0: "digitChar 0 = CHR ''0''"
  by (simp add: digitChar_def)

lemma fixed_digits:
  assumes "n < 10000"
  shows "(let m = padStart 3 CHR ''0'' (showNat n); k = length m
          in padStart 5 CHR ''0'' (take (k - 2) m @ ''.'' @ drop (k - 2) m)) =
         [digitChar (n div 1000), digitChar (n div 100 mod 10), CHR ''.'',
          digitChar (n div 10 mod 10), digitChar (n mod 10)]"
proof -
  consider "n < 10" | "10 \<le> n" "n < 100" | "100 \<le> n" "n < 1000" | "1000 \<le> n"
    by linarith
  then show ?thesis
  proof cases
    case 1
    then show ?thesis by (simp add: showNat_small padStart_def digitChar_0)
  next
    case 2
    then show ?thesis by (simp add: showNat_2 padStart_def digitChar_0)
  next
    case 3
    then show ?thesis by (simp add: showNat_3 padStart_def digitChar_0)
  next
    case 4
    with assms show ?thesis by (simp add: showNat_4 padStart_def digitChar_0)
  qed
qed

lemma jsRem_nonneg:
  assumes "0 \<le> t"
  shows "jsRem t 60 = t - 60 * of_int \<lfloor>t / 60\<rfloor>"
    and "0 \<le> jsRem t 60" and "jsRem t 60 < 60"
proof -
  from assms have "\<not> t / 60 < 0" by simp
  then show e: "jsRem t 60 = t - 60 * of_int \<lfloor>t / 60\<rfloor>" by (simp add: jsRem_def)
  have "of_int \<lfloor>t / 60\<rfloor> \<le> t / 60" by (rule of_int_floor_le)
  then show "0 \<le> jsRem t 60" unfolding e by simp
  have "t / 60 < of_int \<lfloor>t / 60\<rfloor> + 1" using floor_correct [of "t / 60"] by simp
  then show "jsRem t 60 < 60" unfolding e by (simp add: field_simps)
qed

lemma showNat_nonempty: "showNat n \<noteq> []"
  by (subst showNat.simps) simp

lemma minutes_field:
  "padStart 2 CHR ''0'' (showNat m) = (if m < 10 then [CHR ''0'', digitChar m] else showNat m)"
proof (cases "m < 10")
  case True
  then show ?thesis by (simp add: showNat_small padStart_def)
next
  case False
  then have "2 \<le> length (showNat m)"
    using showNat_nonempty [of "m div 10"]
    by (simp add: showNat_big Suc_le_eq)
  with False show ?thesis by (simp add: padStart_def)
qed

lemma formatLrcTime_shape:
  assumes "0 \<le> t"
  shows "(let m = nat \<lfloor>t / 60\<rfloor>;
              n = nat \<lfloor>(t - 60 * of_nat m) * 100 + 1 / 2\<rfloor>
          in formatLrcTime t =
               ''['' @ (if m < 10 then [CHR ''0'', digitChar m] else showNat m) @ '':'' @
               [digitChar (n div 1000), digitChar (n div 100 mod 10), CHR ''.'',
                digitChar (n div 10 mod 10), digitChar (n mod 10)] @ '']''
             \<and> n \<le> 6000)"
proof -
  define m where "m = nat \<lfloor>t / 60\<rfloor>"
  define x where "x = jsRem t 60"
  define n where "n = nat \<lfloor>x * 100 + 1 / 2\<rfloor>"
  from assms have fl: "0 \<le> \<lfloor>t / 60\<rfloor>" by simp
  then have mm: "toStringInt \<lfloor>t / 60\<rfloor> = showNat m"
    by (simp add: toStringInt_def m_def)
  have xe: "x = t - 60 * of_nat m"
    using jsRem_nonneg(1) [OF assms] fl by (simp add: x_def m_def)
  have x0: "0 \<le> x" and x60: "x < 60"
    using jsRem_nonneg [OF assms] by (simp_all add: x_def)
  have "x * 100 + 1 / 2 < 6001" using x60 by simp
  then have n6: "n \<le> 6000" by (simp add: n_def nat_le_iff)
  then have n4: "n < 10000" by simp
  have "padStart 5 CHR ''0'' (toFixed2 x) =
         [digitChar (n div 1000), digitChar (n div 100 mod 10), CHR ''.'',
          digitChar (n div 10 mod 10), digitChar (n mod 10)]"
    using fixed_digits [OF n4] x0 by (simp add: toFixed2_def n_def Let_def)
  then have fmt: "formatLrcTime t =
               ''['' @ (if m < 10 then [CHR ''0'', digitChar m] else showNat m) @ '':'' @
               [digitChar (n div 1000), digitChar (n div 100 mod 10), CHR ''.'',
                digitChar (n div 10 mod 10), digitChar (n mod 10)] @ '']''"
    by (simp add: formatLrcTime_def mm minutes_field x_def [symmetric] Let_def)
  have ne: "nat \<lfloor>(t - 60 * of_nat m) * 100 + 1 / 2\<rfloor> = n"
    by (simp only: n_def xe)
  show ?thesis
    unfolding Let_def m_def [symmetric] ne using fmt n6 by (rule conjI)
qed

lemma isDigit_digitChar: "d < 10 \<Longrightarrow> isDigit (digitChar d)"
  unfolding digitChar_def isDigit_def by (rule nth_mem) simp

lemma showNat_digits: "c \<in> set (showNat n) \<Longrightarrow> isDigit c"
proof (induction n rule: showNat.induct)
  case (1 n)
  show ?case
  proof (cases "n < 10")
    case True
    with "1.prems" show ?thesis using isDigit_digitChar [of n] by (simp add: showNat_small)
  next
    case False
    have "isDigit (digitChar (n mod 10))" by (rule isDigit_digitChar) simp
    with "1.prems" "1.IH" [OF False] False show ?thesis
      by (auto simp: showNat_big)
  qed
qed

lemma padStart_chars:
  assumes "c \<in> set (padStart k CHR ''0'' s)" and "\<forall>x\<in>set s. lrcTimeChar x"
  shows "lrcTimeChar c"
proof -
  have z: "lrcTimeChar CHR ''0''" by (simp add: lrcTimeChar_def isDigit_def)
  from assms(1) have "c = CHR ''0'' \<or> c \<in> set s"
    by (auto simp: padStart_def)
  with z assms(2) show ?thesis by blast
qed

lemma toStringInt_chars:
  assumes "c \<in> set (toStringInt m)"
  shows "lrcTimeChar c"
proof -
  from assms have "c = CHR ''-'' \<or> (\<exists>n. c \<in> set (showNat n))"
    by (auto simp: toStringInt_def split: if_splits)
  then show ?thesis
    using showNat_digits by (auto simp: lrcTimeChar_def)
qed

lemma toFixed2_chars:
  assumes "c \<in> set (toFixed2 x)"
  shows "lrcTimeChar c"
proof -
  define m where "m = padStart 3 CHR ''0'' (showNat (nat \<lfloor>\<bar>x\<bar> * 100 + 1 / 2\<rfloor>))"
  have m: "lrcTimeChar y" if "y \<in> set m" for y
    using that unfolding m_def
    by (rule padStart_chars) (simp add: lrcTimeChar_def showNat_digits)
  from assms have "c = CHR ''-'' \<or> c = CHR ''.'' \<or> c \<in> set (take (length m - 2) m) \<or>
      c \<in> set (drop (length m - 2) m)"
    by (auto simp: toFixed2_def Let_def m_def [symmetric] split: if_splits)
  moreover have "lrcTimeChar CHR ''-''" "lrcTimeChar CHR ''.''"
    by (simp_all add: lrcTimeChar_def)
  ultimately show ?thesis
    using m by (blast dest: in_set_takeD in_set_dropD)
qed

lemma formatLrcTime_chars:
  assumes "c \<in> set (formatLrcTime t)"
  shows "lrcTimeChar c"
proof -
  from assms have "c = CHR ''['' \<or> c = CHR '']'' \<or> c = CHR '':'' \<or>
      c \<in> set (padStart 2 CHR ''0'' (toStringInt \<lfloor>t / 60\<rfloor>)) \<or>
      c \<in> set (padStart 5 CHR ''0'' (toFixed2 (jsRem t 60)))"
    by (auto simp: formatLrcTime_def Let_def)
  moreover have "lrcTimeChar CHR ''[''" "lrcTimeChar CHR '']''" "lrcTimeChar CHR '':''"
    by (simp_all add: lrcTimeChar_def)
  ultimately show ?thesis
    using padStart_chars [of c 2 "toStringInt \<lfloor>t / 60\<rfloor>"]
      padStart_chars [of c 5 "toFixed2 (jsRem t 60)"] toStringInt_chars toFixed2_chars
    by blast
qed

lemma newline_not_lrcTimeChar: "\<not> lrcTimeChar newline"
  by (simp add: lrcTimeChar_def isDigit_def newline_def)

lemma split_str_nonempty: "split_str c s \<noteq> []"
  by (induction s) (auto split: list.splits)

lemma split_str_no_sep: "c \<notin> set l \<Longrightarrow> split_str c l = [l]"
  by (induction l) auto

lemma split_str_append:
  "c \<notin> set l \<Longrightarrow> split_str c (l @ c # r) = l # split_str c r"
  by (induction l) auto

lemma split_join:
  "ls \<noteq> [] \<Longrightarrow> \<forall>l\<in>set ls. c \<notin> set l \<Longrightarrow> split_str c (join [c] ls) = ls"
proof (induction ls)
  case Nil
  then show ?case by simp
next
  case (Cons x xs)
  show ?case
  proof (cases xs)
    case Nil
    with Cons.prems show ?thesis by (simp add: split_str_no_sep)
  next
    case (Cons y ys)
    with Cons.prems Cons.IH have "split_str c (join [c] xs) = xs" by simp
    with Cons Cons.prems show ?thesis
      using split_str_append [of c x "join [c] xs"] by simp
  qed
qed

lemma exampleTimeline_value: "exampleTimeline =
  \<lparr>duration = 10,
    segments = [\<lparr>seg_id = 0, startTime = 0, endTime = 5, textId = Some 2\<rparr>,
                \<lparr>seg_id = 1, startTime = 5, endTime = 10, textId = None\<rparr>],
    textBlocks = [\<lparr>block_id = 2, block_text = ''A''\<rparr>],
    lrcDuration = 0, importingLrc = False, uuidCounter = 3\<rparr>"
  by code_simp

lemma floor_rat_one_divide_numeral:
  "\<lfloor>1 / numeral b :: rat\<rfloor> = 1 div numeral b"
  using floor_divide_of_int_eq [of 1 "numeral b", where ?'a = rat] by simp

lemma formatLrcTime_0: "formatLrcTime 0 = ''[00:00.00]''"
  by (simp add: encode_eval)

lemma formatLrcTime_5: "formatLrcTime 5 = ''[00:05.00]''"
  by (simp add: encode_eval floor_rat_one_divide_numeral)

lemma formatLrcTime_nonempty: "formatLrcTime t \<noteq> []"
  by (simp add: formatLrcTime_def Let_def)

lemma find_id_None:
  "find (\<lambda>b. block_id b = i) blocks = None \<longleftrightarrow> \<not> (\<exists>b\<in>set blocks. Some i = Some (block_id b))"
  by (auto simp: find_None_iff)

lemma part000_lines:
  "map the
     (filter (\<lambda>l. l \<noteq> None \<and> l \<noteq> Some '''')
        (map (\<lambda>s. case find (\<lambda>b. Some (block_id b) = textId s) blocks of
                    None \<Rightarrow> None
                  | Some block \<Rightarrow> Some (formatLrcTime (startTime s) @ block_text block))
           (filter (\<lambda>s. textId s \<noteq> None) segs))) =
   map (lrcLine blocks) (filter (\<lambda>s. \<exists>b\<in>set blocks. textId s = Some (block_id b)) segs)"
proof (induction segs)
  case Nil
  then show ?case by simp
next
  case (Cons s segs)
  show ?case
  proof (cases "textId s")
    case None
    with Cons show ?thesis by simp
  next
    case (Some i)
    note ti = Some
    have eq: "(\<lambda>b. Some (block_id b) = Some i) = (\<lambda>b. block_id b = i)" by auto
    show ?thesis
    proof (cases "find (\<lambda>b. block_id b = i) blocks")
      case None
      then have "\<not> (\<exists>b\<in>set blocks. textId s = Some (block_id b))"
        using ti by (auto simp: find_None_iff)
      with None ti Cons show ?thesis by (simp add: eq)
    next
      case (Some b)
      then have "b \<in> set blocks" "block_id b = i" by (auto simp: find_Some_iff)
      with ti have "\<exists>b\<in>set blocks. textId s = Some (block_id b)" by auto
      with Some ti Cons show ?thesis
        by (simp add: eq lrcLine_def formatLrcTime_nonempty)
    qed
  qed
qed

lemma lrcLine_no_newline:
  assumes "\<forall>b\<in>set blocks. textId s = Some (block_id b) \<longrightarrow> newline \<notin> set (block_text b)"
  shows "newline \<notin> set (lrcLine blocks s)"
proof -
  have t: "newline \<notin> set (formatLrcTime (startTime s))"
    using formatLrcTime_chars [of newline "startTime s"] newline_not_lrcTimeChar by blast
  have "newline \<notin> set (block_text b)" if "textId s = Some i" "find (\<lambda>b. block_id b = i) blocks = Some b"
    for i b
    using that assms by (auto simp: find_Some_iff)
  with t show ?thesis
    by (auto simp: lrcLine_def Let_def split: option.splits)
qed


text \<open>
  C7. The claim asks for exactly one line per segment, for every library. A text of the
  library may hold a line feed, and the document then has more lines than segments:
  from the example state, with the text of the block edited to two lines, the export
  writes three lines for two segments. The older copy of the component keeps the
  segments with a text only: from the example state it writes one line for two
  segments. In both states the export button is enabled.
\<close>

theorem export_lines_counterexample:
  "exportEnabled (updateTextBlock 2 (''a'' @ [newline] @ ''b'') exampleTimeline)
   \<and> length (segments (updateTextBlock 2 (''a'' @ [newline] @ ''b'') exampleTimeline)) = 2
   \<and> split_str newline (exportLRC (updateTextBlock 2 (''a'' @ [newline] @ ''b'') exampleTimeline)) =
       [''[00:00.00]a'', ''b'', ''[00:05.00]'']
   \<and> exportEnabled exampleTimeline
   \<and> length (segments exampleTimeline) = 2
   \<and> exportLRC_part000 exampleTimeline = ''[00:00.00]A''"
  by (simp add: exampleTimeline_value updateTextBlock_def exportEnabled_def exportLRC_def
      exportLRC_part000_def lrcLine_def formatLrcTime_0 formatLrcTime_5 newline_def)

text \<open>
  C7, as the code has it. The document \<open>exportLRC\<close> writes is made of one entry per
  segment, in the order of the segments, joined by single line feeds, with nothing
  before or after; the entry of a segment without a text is its time tag alone. When
  the list is not empty and no text that a segment references holds a line feed, the
  lines of the document are these entries, one line per segment. The older copy writes,
  joined in the same way, the entries of the segments whose \<open>textId\<close> names a block
  of the library, and no others.
\<close>

theorem export_lines:
  "exportLRC st = join [newline] (map (lrcLine (textBlocks st)) (segments st))
   \<and> length (map (lrcLine (textBlocks st)) (segments st)) = length (segments st)
   \<and> (\<forall>s. textId s = None \<longrightarrow> lrcLine (textBlocks st) s = formatLrcTime (startTime s))
   \<and> (segments st \<noteq> [] \<and>
        (\<forall>s\<in>set (segments st). \<forall>b\<in>set (textBlocks st).
            textId s = Some (block_id b) \<longrightarrow> newline \<notin> set (block_text b))
        \<longrightarrow> split_str newline (exportLRC st) = map (lrcLine (textBlocks st)) (segments st))
   \<and> exportLRC_part000 st =
        join [newline]
          (map (lrcLine (textBlocks st))
             (filter (\<lambda>s. \<exists>b\<in>set (textBlocks st). textId s = Some (block_id b)) (segments st)))"
proof (intro conjI allI impI)
  assume a: "segments st \<noteq> [] \<and>
        (\<forall>s\<in>set (segments st). \<forall>b\<in>set (textBlocks st).
            textId s = Some (block_id b) \<longrightarrow> newline \<notin> set (block_text b))"
  then have "\<forall>l\<in>set (map (lrcLine (textBlocks st)) (segments st)). newline \<notin> set l"
    using lrcLine_no_newline by auto
  with a show "split_str newline (exportLRC st) = map (lrcLine (textBlocks st)) (segments st)"
    unfolding exportLRC_def by (intro split_join) auto
next
  show "exportLRC_part000 st =
        join [newline]
          (map (lrcLine (textBlocks st))
             (filter (\<lambda>s. \<exists>b\<in>set (textBlocks st). textId s = Some (block_id b)) (segments st)))"
    unfolding exportLRC_part000_def Let_def by (simp only: part000_lines)
qed (simp_all add: exportLRC_def lrcLine_def)


theorem export_lines_witness:
  "split_str newline (exportLRC exampleTimeline) = [''[00:00.00]A'', ''[00:05.00]'']"
proof -
  have l: "map (lrcLine (textBlocks exampleTimeline)) (segments exampleTimeline) =
      [''[00:00.00]A'', ''[00:05.00]'']"
    by (simp add: exampleTimeline_value lrcLine_def formatLrcTime_0 formatLrcTime_5)
  have "segments exampleTimeline \<noteq> [] \<and>
        (\<forall>s\<in>set (segments exampleTimeline). \<forall>b\<in>set (textBlocks exampleTimeline).
            textId s = Some (block_id b) \<longrightarrow> newline \<notin> set (block_text b))"
    by (simp add: exampleTimeline_value newline_def)
  with export_lines [of exampleTimeline] show ?thesis
    unfolding l by blast
qed


text \<open>
  C9. For a segment that starts at a time of 0 or more, the line is an opening bracket,
  the minutes \<open>m = floor (startTime / 60)\<close> written with two digits below 10 and at
  their natural width from 10 on, a colon, the seconds as two digits, a point and two
  digits, which are the digits of \<open>n\<close>, the remainder \<open>startTime - 60 * m\<close> in hundredths
  rounded to the nearest integer, a closing bracket, and the text of the referenced block
  (nothing when there is none). The segment that starts at 63.4 and references the text
  Hello gives \<open>[01:03.40]Hello\<close>.
\<close>

theorem lrc_line_format:
  "(0 \<le> startTime s \<longrightarrow>
     (let m = nat \<lfloor>startTime s / 60\<rfloor>;
          n = nat \<lfloor>(startTime s - 60 * of_nat m) * 100 + 1 / 2\<rfloor>;
          blockText = (case textId s of
                         None \<Rightarrow> ''''
                       | Some i \<Rightarrow> (case find (\<lambda>b. block_id b = i) blocks of
                                      None \<Rightarrow> ''''
                                    | Some b \<Rightarrow> block_text b))
      in lrcLine blocks s =
           ''['' @ (if m < 10 then [CHR ''0'', digitChar m] else showNat m) @ '':'' @
           [digitChar (n div 1000), digitChar (n div 100 mod 10), CHR ''.'',
            digitChar (n div 10 mod 10), digitChar (n mod 10)] @ '']'' @ blockText
         \<and> n \<le> 6000))
   \<and> lrcLine [\<lparr>block_id = 1, block_text = ''Hello''\<rparr>]
        \<lparr>seg_id = 0, startTime = 634 / 10, endTime = 90, textId = Some 1\<rparr> = ''[01:03.40]Hello''"
proof (intro conjI impI)
  assume "0 \<le> startTime s"
  from formatLrcTime_shape [OF this] show "(let m = nat \<lfloor>startTime s / 60\<rfloor>;
          n = nat \<lfloor>(startTime s - 60 * of_nat m) * 100 + 1 / 2\<rfloor>;
          blockText = (case textId s of
                         None \<Rightarrow> ''''
                       | Some i \<Rightarrow> (case find (\<lambda>b. block_id b = i) blocks of
                                      None \<Rightarrow> ''''
                                    | Some b \<Rightarrow> block_text b))
      in lrcLine blocks s =
           ''['' @ (if m < 10 then [CHR ''0'', digitChar m] else showNat m) @ '':'' @
           [digitChar (n div 1000), digitChar (n div 100 mod 10), CHR ''.'',
            digitChar (n div 10 mod 10), digitChar (n mod 10)] @ '']'' @ blockText
         \<and> n \<le> 6000)"
    by (simp add: lrcLine_def Let_def split: option.splits)
next
  show "lrcLine [\<lparr>block_id = 1, block_text = ''Hello''\<rparr>]
        \<lparr>seg_id = 0, startTime = 634 / 10, endTime = 90, textId = Some 1\<rparr> = ''[01:03.40]Hello''"
    by (simp add: lrcLine_def encode_eval)
qed

theorem lrc_line_format_witness:
  "lrcLine [\<lparr>block_id = 1, block_text = ''Hi''\<rparr>]
     \<lparr>seg_id = 0, startTime = 6000 + 5 / 1000, endTime = 7000, textId = Some 1\<rparr> =
   ''[100:00.01]Hi''"
  using lrc_line_format [of "\<lparr>seg_id = 0, startTime = 6000 + 5 / 1000, endTime = 7000, textId = Some 1\<rparr>"
      "[\<lparr>block_id = 1, block_text = ''Hi''\<rparr>]"]
  by (simp add: floor_rat_divide_numeral showNat_small showNat_big digitChar_def)

section \<open>Properties of the import\<close>

lemma pow2_pos: "0 < pow2 k"
  by (simp add: pow2_def)

lemma roundHalfEven_nonneg: "0 \<le> q \<Longrightarrow> 0 \<le> roundHalfEven q"
  by (simp add: roundHalfEven_def Let_def)

lemma toDouble_nonneg:
  assumes "0 \<le> x"
  shows "0 \<le> toDouble x"
proof (cases "x = 0")
  case True
  then show ?thesis by (simp add: toDouble_def)
next
  case False
  define ulp where "ulp = pow2 (max (ilog2 \<bar>x\<bar>) (- 1022) - 52)"
  have u: "0 < ulp" unfolding ulp_def by (rule pow2_pos)
  with assms have "0 \<le> \<bar>x\<bar> / ulp" by simp
  then have "0 \<le> roundHalfEven (\<bar>x\<bar> / ulp)" by (rule roundHalfEven_nonneg)
  with u have "0 \<le> of_int (roundHalfEven (\<bar>x\<bar> / ulp)) * ulp" by simp
  moreover from assms False have "sgn x = 1" by simp
  ultimately show ?thesis
    using False by (simp add: toDouble_def Let_def ulp_def [symmetric])
qed

lemma parseFloat_nonneg: "0 \<le> parseFloat s"
  by (auto simp: parseFloat_def intro!: toDouble_nonneg split: list.splits)

lemma parseInt_nonneg: "0 \<le> parseInt s"
  by (simp add: parseInt_def toDouble_nonneg)

lemma matchTime_nonneg: "0 \<le> matchTime match"
  unfolding matchTime_def
  by (intro toDouble_nonneg add_nonneg_nonneg mult_nonneg_nonneg parseInt_nonneg
      parseFloat_nonneg) simp

lemma entryKey_inj: "entryKey a = entryKey b \<Longrightarrow> a = b"
  by (cases a, cases b) (simp add: entryKey_def)

lemma pushMatch_inv: "scan_inv acc \<Longrightarrow> scan_inv (pushMatch line acc match)"
proof -
  assume a: "scan_inv acc"
  obtain entries maxTime where acc: "acc = (entries, maxTime)" by (cases acc)
  from a have a': "scan_inv (entries, maxTime)" by (simp add: acc)
  define t where "t = toDouble (toDouble (parseInt (fst match) * 60) + parseFloat (snd match))"
  have t0: "0 \<le> t" using matchTime_nonneg [of "match"] by (simp add: t_def matchTime_def)
  show ?thesis
  proof (cases "length (trim (stripTags line)) > 0 \<or> t > 0")
    case False
    then have "pushMatch line acc match = acc"
      by (simp add: pushMatch_def acc t_def Let_def)
    with a show ?thesis by simp
  next
    case True
    then have p: "pushMatch line acc match =
      (entries @ [\<lparr>entry_time = t, entry_text = trim (stripTags line)\<rparr>], max maxTime t)"
      by (simp add: pushMatch_def acc t_def Let_def)
    show ?thesis
    proof (cases "entries = []")
      case True
      with a' t0 show ?thesis unfolding p by (simp add: scan_inv_def max_def)
    next
      case False
      with a' obtain e where "e \<in> set entries" "entry_time e = maxTime"
        by (auto simp: scan_inv_def)
      with a' t0 show ?thesis
        unfolding p by (auto simp: scan_inv_def max_def)
    qed
  qed
qed

lemma foldl_inv:
  "P acc \<Longrightarrow> (\<And>a x. P a \<Longrightarrow> P (f a x)) \<Longrightarrow> P (foldl f acc xs)"
  by (induction xs arbitrary: acc) auto

lemma scanLine_inv: "scan_inv acc \<Longrightarrow> scan_inv (scanLine acc line)"
  unfolding scanLine_def by (erule foldl_inv) (rule pushMatch_inv)

lemma scan_lines_inv: "scan_inv (foldl scanLine ([], 0) lines)"
proof (rule foldl_inv)
  show "scan_inv ([], 0)" by (simp add: scan_inv_def)
qed (rule scanLine_inv)

lemma mapSet_values:
  assumes "\<forall>kv\<in>set m. fst kv = entryKey (snd kv)"
  shows "set (map snd (mapSet m (entryKey e) e)) = insert e (set (map snd m))
    \<and> (\<forall>kv\<in>set (mapSet m (entryKey e) e). fst kv = entryKey (snd kv))"
  using assms
proof (induction m)
  case Nil
  then show ?case by simp
next
  case (Cons kv m)
  obtain k v where kv: "kv = (k, v)" by (cases kv)
  show ?case
  proof (cases "k = entryKey e")
    case True
    with Cons.prems kv have "v = e" by (simp add: entryKey_inj)
    with True kv Cons.prems show ?thesis by auto
  next
    case False
    with kv Cons show ?thesis by auto
  qed
qed

lemma newMap_values_aux:
  assumes "\<forall>kv\<in>set m. fst kv = entryKey (snd kv)"
  shows "set (map snd (foldl (\<lambda>m kv. mapSet m (fst kv) (snd kv)) m
            (map (\<lambda>entry. (entryKey entry, entry)) es))) = set (map snd m) \<union> set es"
  using assms
proof (induction es arbitrary: m)
  case Nil
  then show ?case by simp
next
  case (Cons e es)
  from mapSet_values [OF Cons.prems, of e] Cons.IH [of "mapSet m (entryKey e) e"]
  show ?case by auto
qed

lemma uniqueEntries_set:
  "set (map snd (newMap (map (\<lambda>entry. (entryKey entry, entry)) es))) = set es"
  unfolding newMap_def using newMap_values_aux [of "[]" es] by simp

lemma parseLRCFile_entries:
  "\<exists>es. scan_inv (es, snd (parseLRCFile text)) \<and> set (fst (parseLRCFile text)) = set es
        \<and> sorted (map entry_time (fst (parseLRCFile text)))"
proof -
  define lines where "lines = filter (\<lambda>line. trim line \<noteq> []) (split_str newline text)"
  obtain es mx where f: "foldl scanLine ([], 0) lines = (es, mx)"
    by (cases "foldl scanLine ([], 0) lines")
  have "scan_inv (es, mx)" using scan_lines_inv [of lines] by (simp add: f)
  moreover have "parseLRCFile text =
    (sort_key entry_time (map snd (newMap (map (\<lambda>entry. (entryKey entry, entry)) es))), mx)"
    by (simp add: parseLRCFile_def lines_def [symmetric] f)
  ultimately have "scan_inv (es, snd (parseLRCFile text)) \<and>
      set (fst (parseLRCFile text)) = set es \<and>
      sorted (map entry_time (fst (parseLRCFile text)))"
    using uniqueEntries_set [of es] by simp
  then show ?thesis by blast
qed

lemma parseLRCFile_maxTime:
  assumes "fst (parseLRCFile text) \<noteq> []"
  shows "snd (parseLRCFile text) = Max (entry_time ` set (fst (parseLRCFile text)))"
proof -
  from parseLRCFile_entries [of "text"] obtain es
    where i: "scan_inv (es, snd (parseLRCFile text))"
      and s: "set (fst (parseLRCFile text)) = set es"
    by blast
  from assms s have ne: "es \<noteq> []" by auto
  with i obtain e where "e \<in> set es" "entry_time e = snd (parseLRCFile text)"
    by (auto simp: scan_inv_def)
  then have "snd (parseLRCFile text) \<in> entry_time ` set es"
    by (metis imageI)
  moreover from i have "\<forall>e\<in>set es. entry_time e \<le> snd (parseLRCFile text)"
    by (auto simp: scan_inv_def)
  ultimately show ?thesis
    unfolding s by (intro Max_eqI [symmetric]) auto
qed

lemma parseLRCFile_le_maxTime:
  "e \<in> set (fst (parseLRCFile text)) \<Longrightarrow> entry_time e \<le> snd (parseLRCFile text)"
  using parseLRCFile_entries [of "text"] by (auto simp: scan_inv_def)

text \<open>
  A tag in the middle of a document: whatever stands before and after it, the line that
  holds \<open>[00:15.00]hello\<close> is kept, the scan of that line finds the tag, and an entry
  with the time 15 survives.
\<close>

lemma split_str_prefix:
  "c \<notin> set t \<Longrightarrow> \<exists>q ls. split_str c (t @ post) = (t @ q) # ls"
proof (induction t)
  case Nil
  then show ?case
    using split_str_nonempty [of c post] by (cases "split_str c post") auto
next
  case (Cons x t)
  then obtain q ls where "split_str c (t @ post) = (t @ q) # ls" by auto
  with Cons.prems show ?case by auto
qed

lemma split_str_contains:
  "c \<notin> set t \<Longrightarrow> \<exists>l\<in>set (split_str c (pre @ t @ post)). \<exists>p q. l = p @ t @ q"
proof (induction pre)
  case Nil
  from split_str_prefix [OF Nil, of post] obtain q ls
    where "split_str c (t @ post) = (t @ q) # ls" by blast
  then have "t @ q \<in> set (split_str c ([] @ t @ post))" by simp
  moreover have "t @ q = [] @ t @ q" by simp
  ultimately show ?case by blast
next
  case (Cons x pre)
  from Cons.IH [OF Cons.prems] obtain l p q
    where l: "l \<in> set (split_str c (pre @ t @ post))" "l = p @ t @ q" by blast
  show ?case
  proof (cases "x = c")
    case True
    with l show ?thesis by auto
  next
    case False
    obtain l0 ls where s: "split_str c (pre @ t @ post) = l0 # ls"
      using split_str_nonempty [of c "pre @ t @ post"] by (cases "split_str c (pre @ t @ post)") auto
    with False have e: "split_str c ((x # pre) @ t @ post) = (x # l0) # ls" by simp
    show ?thesis
    proof (cases "l = l0")
      case True
      with l(2) have "x # l0 = (x # p) @ t @ q" by simp
      with e show ?thesis by (metis list.set_intros(1))
    next
      case False
      with l(1) s have "l \<in> set ls" by simp
      with e l(2) show ?thesis by (metis list.set_intros(2))
    qed
  qed
qed

lemma in_set_dropWhile: "x \<in> set l \<Longrightarrow> \<not> P x \<Longrightarrow> x \<in> set (dropWhile P l)"
  by (induction l) auto

lemma trim_nonempty: "x \<in> set l \<Longrightarrow> \<not> isSpace x \<Longrightarrow> trim l \<noteq> []"
proof -
  assume a: "x \<in> set l" "\<not> isSpace x"
  then have "x \<in> set (rev (dropWhile isSpace l))" by (simp add: in_set_dropWhile)
  from this a(2) have "x \<in> set (dropWhile isSpace (rev (dropWhile isSpace l)))"
    by (rule in_set_dropWhile)
  then have "dropWhile isSpace (rev (dropWhile isSpace l)) \<noteq> []"
    by (metis empty_iff list.set(1))
  then show ?thesis by (simp only: trim_def rev_is_Nil_conv not_False_eq_True)
qed

lemma matchTag_no_bracket:
  assumes "matchTag s = Some (m, sec, rest)"
  shows "CHR ''['' \<notin> set (m @ CHR '':'' # sec @ [CHR '']''])"
proof -
  have d: "CHR ''['' \<notin> set (takeWhile isDigit xs)" for xs
    by (auto simp: isDigit_def dest: set_takeWhileD)
  have f: "CHR ''['' \<notin> set (fst (optFraction xs))" for xs
    using d by (auto simp: optFraction_def split: list.splits)
  from assms obtain r1 r3 fr r5 where "m = takeWhile isDigit r1"
    "sec = takeWhile isDigit r3 @ fr" "optFraction (dropWhile isDigit r3) = (fr, r5)"
    by (auto simp: matchTag_def split: list.splits if_splits prod.splits)
  with d f [of "dropWhile isDigit r3"] show ?thesis by simp
qed

lemma append_before_fresh:
  assumes "body @ rest = p @ x # r" and "x \<notin> set body"
  shows "\<exists>p'. p = body @ p' \<and> rest = p' @ x # r"
proof -
  from assms(1) obtain us where "body = p @ us \<and> us @ rest = x # r \<or> body @ us = p \<and> rest = us @ x # r"
    unfolding append_eq_append_conv2 by blast
  then show ?thesis
  proof
    assume a: "body = p @ us \<and> us @ rest = x # r"
    show ?thesis
    proof (cases us)
      case Nil
      with a show ?thesis by simp
    next
      case (Cons u us')
      with a have "u = x" by simp
      with a Cons assms(2) show ?thesis by simp
    qed
  next
    assume "body @ us = p \<and> rest = us @ x # r"
    then show ?thesis by blast
  qed
qed

lemma matchTag_15: "matchTag (''[00:15.00]'' @ r) = Some (''00'', ''15.00'', r)"
  by (simp add: matchTag_def optFraction_def isDigit_def)

lemma matchAll_contains_15:
  "(''00'', ''15.00'') \<in> set (matchAll (p @ ''[00:15.00]'' @ r))"
proof (induction "length p" arbitrary: p rule: less_induct)
  case less
  show ?case
  proof (cases p)
    case Nil
    then show ?thesis by (simp add: matchTag_15 [simplified])
  next
    case (Cons c p')
    show ?thesis
    proof (cases "matchTag (c # p' @ ''[00:15.00]'' @ r)")
      case None
      with Cons less [of p'] show ?thesis by simp
    next
      case (Some a)
      obtain m sec rest where a: "a = (m, sec, rest)" by (cases a)
      from matchTag_Some [OF Some [unfolded a]]
      have "(m @ CHR '':'' # sec @ [CHR '']'']) @ rest = p' @ CHR ''['' # (''00:15.00]'' @ r)"
        by simp
      from append_before_fresh [OF this matchTag_no_bracket [OF Some [unfolded a]]]
      obtain p'' where "p' = (m @ CHR '':'' # sec @ [CHR '']'']) @ p''"
        and rest: "rest = p'' @ CHR ''['' # (''00:15.00]'' @ r)"
        by blast
      then have "length p'' < length p" using Cons by simp
      from less [OF this] rest have "(''00'', ''15.00'') \<in> set (matchAll rest)" by simp
      with Some a Cons show ?thesis by simp
    qed
  qed
qed

lemma pushMatch_mono: "set (fst acc) \<subseteq> set (fst (pushMatch line acc match))"
  by (cases acc) (auto simp: pushMatch_def Let_def)

lemma pushMatch_pushes:
  "0 < matchTime match \<Longrightarrow> \<exists>e\<in>set (fst (pushMatch line acc match)). entry_time e = matchTime match"
  by (cases acc) (simp add: pushMatch_def matchTime_def Let_def)

lemma foldl_pushMatch_mono: "set (fst acc) \<subseteq> set (fst (foldl (pushMatch line) acc ms))"
proof (induction ms arbitrary: acc)
  case Nil
  then show ?case by simp
next
  case (Cons m ms)
  from pushMatch_mono [of acc line m] Cons [of "pushMatch line acc m"] show ?case by auto
qed

lemma scanLine_mono: "set (fst acc) \<subseteq> set (fst (scanLine acc line))"
  unfolding scanLine_def by (rule foldl_pushMatch_mono)

lemma foldl_pushMatch_pushes:
  "match \<in> set ms \<Longrightarrow> 0 < matchTime match \<Longrightarrow>
   \<exists>e\<in>set (fst (foldl (pushMatch line) acc ms)). entry_time e = matchTime match"
proof (induction ms arbitrary: acc)
  case Nil
  then show ?case by simp
next
  case (Cons m ms)
  show ?case
  proof (cases "match = m")
    case True
    from pushMatch_pushes [OF Cons.prems(2), of line acc] obtain e
      where "e \<in> set (fst (pushMatch line acc match))" "entry_time e = matchTime match" by blast
    with True foldl_pushMatch_mono [of "pushMatch line acc m" line ms] show ?thesis by auto
  next
    case False
    with Cons.prems have "match \<in> set ms" by simp
    from Cons.IH [OF this Cons.prems(2), of "pushMatch line acc m"] show ?thesis by simp
  qed
qed

lemma scan_lines_pushes:
  "line \<in> set lines \<Longrightarrow> match \<in> set (matchAll line) \<Longrightarrow> 0 < matchTime match \<Longrightarrow>
   \<exists>e\<in>set (fst (foldl scanLine acc lines)). entry_time e = matchTime match"
proof (induction lines arbitrary: acc)
  case Nil
  then show ?case by simp
next
  case (Cons l ls)
  have mono: "set (fst a) \<subseteq> set (fst (foldl scanLine a ls))" for a
  proof (induction ls arbitrary: a)
    case Nil
    then show ?case by simp
  next
    case (Cons x xs)
    from scanLine_mono [of a x] Cons [of "scanLine a x"] show ?case by auto
  qed
  show ?case
  proof (cases "line = l")
    case True
    from foldl_pushMatch_pushes [OF Cons.prems(2,3), of line acc] obtain e
      where "e \<in> set (fst (scanLine acc line))" "entry_time e = matchTime match"
      unfolding scanLine_def by blast
    with True mono [of "scanLine acc l"] show ?thesis by auto
  next
    case False
    with Cons.prems have "line \<in> set ls" by simp
    from Cons.IH [OF this Cons.prems(2,3), of "scanLine acc l"] show ?thesis by simp
  qed
qed

lemma parseLRCFile_set:
  "set (fst (parseLRCFile text)) =
   set (fst (foldl scanLine ([], 0) (filter (\<lambda>line. trim line \<noteq> []) (split_str newline text))))"
  using uniqueEntries_set by (simp add: parseLRCFile_def case_prod_beta Let_def)

lemma parse_contains_15:
  "\<exists>e\<in>set (fst (parseLRCFile (pre @ ''[00:15.00]hello'' @ post))). entry_time e = 15"
proof -
  have "newline \<notin> set ''[00:15.00]hello''" by (simp add: newline_def)
  from split_str_contains [OF this, of pre post] obtain l p q
    where l: "l \<in> set (split_str newline (pre @ ''[00:15.00]hello'' @ post))"
      and lpq: "l = p @ ''[00:15.00]hello'' @ q"
    by blast
  have "CHR ''['' \<in> set l" "\<not> isSpace CHR ''[''" by (simp_all add: lpq isSpace_def)
  then have "trim l \<noteq> []" by (rule trim_nonempty)
  with l have lin: "l \<in> set (filter (\<lambda>line. trim line \<noteq> [])
      (split_str newline (pre @ ''[00:15.00]hello'' @ post)))" by simp
  have "l = p @ ''[00:15.00]'' @ (''hello'' @ q)" by (simp add: lpq)
  then have m: "(''00'', ''15.00'') \<in> set (matchAll l)"
    using matchAll_contains_15 [of p "''hello'' @ q"] by simp
  have t: "matchTime (''00'', ''15.00'') = 15"
    by code_simp
  from scan_lines_pushes [OF lin m, of "([], 0)"] t show ?thesis
    unfolding parseLRCFile_set by simp
qed

text \<open>
  C6. When the duration of the video is known (above 0) and some surviving entry has a
  larger time, \<open>handleLrcImport\<close> reports the duration mismatch, with the largest entry
  time and the duration, and returns the state it was given: segments, library and all
  other fields are unchanged. With a duration of 10 this is what every document that
  contains \<open>[00:15.00]hello\<close> gives, whatever the rest of the state; for the document
  that is this tag alone the time reported is 15.
\<close>

theorem import_rejects_long_lrc:
  "(0 < duration st \<and> (\<exists>e\<in>set (fst (parseLRCFile text)). duration st < entry_time e)
     \<longrightarrow> handleLrcImport text st =
           (DurationMismatch (Max (entry_time ` set (fst (parseLRCFile text)))) (duration st), st))
   \<and> (duration st = 10
     \<longrightarrow> handleLrcImport (pre @ ''[00:15.00]hello'' @ post) st =
           (DurationMismatch
              (Max (entry_time ` set (fst (parseLRCFile (pre @ ''[00:15.00]hello'' @ post))))) 10,
            st))
   \<and> handleLrcImport ''[00:15.00]hello'' (st\<lparr>duration := 10\<rparr>) =
        (DurationMismatch 15 10, st\<lparr>duration := 10\<rparr>)"
proof -
  have general: "handleLrcImport t s =
      (DurationMismatch (Max (entry_time ` set (fst (parseLRCFile t)))) (duration s), s)"
    if d: "0 < duration s" and e: "e \<in> set (fst (parseLRCFile t))" "duration s < entry_time e"
    for t s and e :: LrcEntry
  proof -
    from e have ne: "fst (parseLRCFile t) \<noteq> []" by auto
    from e parseLRCFile_le_maxTime [OF e(1)] have "duration s < snd (parseLRCFile t)" by simp
    with d ne show ?thesis
      by (simp add: handleLrcImport_def case_prod_beta parseLRCFile_maxTime [OF ne])
  qed
  have one: "handleLrcImport text st =
      (DurationMismatch (Max (entry_time ` set (fst (parseLRCFile text)))) (duration st), st)"
    if "0 < duration st \<and> (\<exists>e\<in>set (fst (parseLRCFile text)). duration st < entry_time e)"
    using that general [of st _ "text"] by blast
  have two: "handleLrcImport (pre @ ''[00:15.00]hello'' @ post) st =
      (DurationMismatch
         (Max (entry_time ` set (fst (parseLRCFile (pre @ ''[00:15.00]hello'' @ post))))) 10, st)"
    if d: "duration st = 10"
  proof -
    from parse_contains_15 [of pre post] obtain e :: LrcEntry
      where e: "e \<in> set (fst (parseLRCFile (pre @ ''[00:15.00]hello'' @ post)))"
        "entry_time e = 15"
      by blast
    from general [of st e "pre @ ''[00:15.00]hello'' @ post"] d e show ?thesis by simp
  qed
  have p: "parseLRCFile ''[00:15.00]hello'' = ([\<lparr>entry_time = 15, entry_text = ''hello''\<rparr>], 15)"
    by code_simp
  have three: "handleLrcImport ''[00:15.00]hello'' (st\<lparr>duration := 10\<rparr>) =
        (DurationMismatch 15 10, st\<lparr>duration := 10\<rparr>)"
    by (simp add: handleLrcImport_def p)
  from one two three show ?thesis by blast
qed

theorem import_rejects_long_lrc_witness:
  "handleLrcImport (''[00:05.00]a'' @ [newline] @ ''[01:00]b'')
     (initialApp\<lparr>duration := 30, textBlocks := [\<lparr>block_id = 1, block_text = ''old''\<rparr>]\<rparr>) =
   (DurationMismatch 60 30,
    initialApp\<lparr>duration := 30, textBlocks := [\<lparr>block_id = 1, block_text = ''old''\<rparr>]\<rparr>)"
proof -
  let ?text = "''[00:05.00]a'' @ [newline] @ ''[01:00]b''"
  let ?st = "initialApp\<lparr>duration := 30, textBlocks := [\<lparr>block_id = 1, block_text = ''old''\<rparr>]\<rparr>"
  have p: "parseLRCFile ?text =
      ([\<lparr>entry_time = 5, entry_text = ''a''\<rparr>, \<lparr>entry_time = 60, entry_text = ''b''\<rparr>], 60)"
    by code_simp
  have "0 < duration ?st \<and> (\<exists>e\<in>set (fst (parseLRCFile ?text)). duration ?st < entry_time e)"
    unfolding p by (simp add: initialApp_def)
  with import_rejects_long_lrc [of ?st ?text] have "handleLrcImport ?text ?st =
      (DurationMismatch (Max (entry_time ` set (fst (parseLRCFile ?text)))) (duration ?st), ?st)"
    by blast
  then show ?thesis unfolding p by (simp add: initialApp_def)
qed

lemma newTextBlocksOf_spec:
  "map block_text (fst (newTextBlocksOf es st)) = map entry_text es
   \<and> (\<forall>j<length es. block_id (fst (newTextBlocksOf es st) ! j) = uuidCounter st + j)
   \<and> snd (newTextBlocksOf es st) = st\<lparr>uuidCounter := uuidCounter st + length es\<rparr>"
proof (induction es arbitrary: st)
  case Nil
  then show ?case by simp
next
  case (Cons e es)
  let ?st1 = "st\<lparr>uuidCounter := Suc (uuidCounter st)\<rparr>"
  from Cons.IH [of ?st1]
  have t: "map block_text (fst (newTextBlocksOf es ?st1)) = map entry_text es"
    and i: "\<forall>j<length es. block_id (fst (newTextBlocksOf es ?st1) ! j) = Suc (uuidCounter st) + j"
    and s: "snd (newTextBlocksOf es ?st1) = st\<lparr>uuidCounter := Suc (uuidCounter st) + length es\<rparr>"
    by simp_all
  have "block_id (fst (newTextBlocksOf (e # es) st) ! j) = uuidCounter st + j"
    if "j < length (e # es)" for j
    using that i by (cases j) (simp_all add: randomUUID_def case_prod_beta)
  then show ?case
    by (simp add: randomUUID_def case_prod_beta t s)
qed

lemma buildSegments_spec:
  "map startTime (fst (buildSegments es bs ts st)) = butlast ts
   \<and> map endTime (fst (buildSegments es bs ts st)) = tl ts
   \<and> map textId (fst (buildSegments es bs ts st)) = map (segmentTextId es bs) (butlast ts)
   \<and> duration (snd (buildSegments es bs ts st)) = duration st"
proof (induction es bs ts st rule: buildSegments.induct)
  case (1 entries newTextBlocks startT endT rest st)
  then show ?case
    by (simp add: randomUUID_def case_prod_beta)
qed simp_all

lemma buildSegments_textId:
  assumes "s \<in> set (fst (buildSegments es bs ts st))"
  shows "textId s = segmentTextId es bs (startTime s)"
  using assms
proof (induction es bs ts st rule: buildSegments.induct)
  case (1 entries newTextBlocks startT endT rest st)
  then show ?case
    by (auto simp: randomUUID_def case_prod_beta)
qed simp_all

lemma handleLrcImport_success:
  assumes "handleLrcImport text st = (ImportSuccess n k, st')" and "0 < duration st"
  shows "textBlocks st' =
           fst (newTextBlocksOf (filter (\<lambda>entry. length (entry_text entry) > 0)
                   (fst (parseLRCFile text))) (st\<lparr>lrcDuration := snd (parseLRCFile text)\<rparr>))"
    and "segments st' =
           fst (buildSegments (fst (parseLRCFile text)) (textBlocks st')
                  (allTimesOf (fst (parseLRCFile text)) (duration st))
                  (snd (newTextBlocksOf (filter (\<lambda>entry. length (entry_text entry) > 0)
                     (fst (parseLRCFile text))) (st\<lparr>lrcDuration := snd (parseLRCFile text)\<rparr>))))"
proof -
  from assms have e: "st' = snd (handleLrcImport text st)" by simp
  from assms have c: "\<not> length (fst (parseLRCFile text)) = 0"
    "\<not> (duration st > 0 \<and> duration st < snd (parseLRCFile text))"
    by (auto simp: handleLrcImport_def case_prod_beta Let_def split: if_splits)
  show t: "textBlocks st' =
           fst (newTextBlocksOf (filter (\<lambda>entry. length (entry_text entry) > 0)
                   (fst (parseLRCFile text))) (st\<lparr>lrcDuration := snd (parseLRCFile text)\<rparr>))"
    unfolding e using c assms(2)
    by (simp add: handleLrcImport_def case_prod_beta Let_def)
  show "segments st' =
           fst (buildSegments (fst (parseLRCFile text)) (textBlocks st')
                  (allTimesOf (fst (parseLRCFile text)) (duration st))
                  (snd (newTextBlocksOf (filter (\<lambda>entry. length (entry_text entry) > 0)
                     (fst (parseLRCFile text))) (st\<lparr>lrcDuration := snd (parseLRCFile text)\<rparr>))))"
    unfolding t unfolding e using c assms(2)
    by (simp add: handleLrcImport_def case_prod_beta Let_def)
qed

lemma find_first_index:
  "find P xs = Some x \<longleftrightarrow> (\<exists>j<length xs. x = xs ! j \<and> P (xs ! j) \<and> (\<forall>j'<j. \<not> P (xs ! j')))"
  by (auto simp: find_Some_iff)

lemma buildSegments_chain:
  assumes "sorted_wrt (<) (a # ts)"
  shows "chain a (fst (buildSegments es bs (a # ts) st)) (last (a # ts))"
  using assms
proof (induction ts arbitrary: a st)
  case Nil
  then show ?case by simp
next
  case (Cons b ts)
  from Cons.prems have "sorted_wrt (<) (b # ts)" and ab: "a < b" by simp_all
  from Cons.IH [OF this(1), of "snd (randomUUID st)"] ab show ?case
    by (simp add: case_prod_beta)
qed

lemma allTimesOf_sorted:
  assumes "sorted (map entry_time es)" and "0 < d"
  shows "sorted (allTimesOf es d)"
proof -
  let ?f = "filter (\<lambda>t. t > 0 \<and> t < d) (map entry_time es)"
  have "sorted ?f" using assms(1) by (rule sorted_wrt_filter)
  moreover have "\<forall>t\<in>set ?f. 0 \<le> t \<and> t \<le> d" by auto
  ultimately show ?thesis
    using assms(2) by (simp add: allTimesOf_def sorted_append)
qed

lemma allTimesOf_strict:
  assumes "sorted (map entry_time es)" and "distinct (map entry_time es)" and "0 < d"
  shows "sorted_wrt (<) (allTimesOf es d)"
proof -
  define f where "f = filter (\<lambda>t. t > 0 \<and> t < d) (map entry_time es)"
  have "sorted f" unfolding f_def using assms(1) by (rule sorted_wrt_filter)
  moreover have "distinct f" unfolding f_def using assms(2) by (rule distinct_filter)
  ultimately have s: "sorted_wrt (<) f" by (simp only: strict_sorted_iff)
  have b: "\<forall>t\<in>set f. 0 < t \<and> t < d" unfolding f_def by simp
  have "allTimesOf es d = 0 # f @ [d]" by (simp add: allTimesOf_def f_def)
  moreover have "sorted_wrt (<) (f @ [d])"
    using s b by (simp add: sorted_wrt_append)
  ultimately show ?thesis
    using b assms(3) by auto
qed

text \<open>
  The segments an import builds start at the boundaries but the last and end at the
  boundaries but the first, and the boundaries are in order. When no two surviving
  entries have the same time, the list built is a partition of \<open>[0, duration)\<close>.
\<close>

lemma import_segments_boundaries:
  assumes "handleLrcImport text st = (ImportSuccess n k, st')" and "0 < duration st"
  shows "map startTime (segments st') = butlast (allTimesOf (fst (parseLRCFile text)) (duration st))"
    and "map endTime (segments st') = tl (allTimesOf (fst (parseLRCFile text)) (duration st))"
    and "sorted (allTimesOf (fst (parseLRCFile text)) (duration st))"
    and "distinct (map entry_time (fst (parseLRCFile text))) \<Longrightarrow>
         partition_inv (duration st) (segments st')"
proof -
  note h = handleLrcImport_success [OF assms]
  have srt: "sorted (map entry_time (fst (parseLRCFile text)))"
    using parseLRCFile_entries [of "text"] by blast
  show "map startTime (segments st') = butlast (allTimesOf (fst (parseLRCFile text)) (duration st))"
    unfolding h(2) using buildSegments_spec by blast
  show "map endTime (segments st') = tl (allTimesOf (fst (parseLRCFile text)) (duration st))"
    unfolding h(2) using buildSegments_spec by blast
  show "sorted (allTimesOf (fst (parseLRCFile text)) (duration st))"
    using srt assms(2) by (rule allTimesOf_sorted)
  assume "distinct (map entry_time (fst (parseLRCFile text)))"
  with srt have s: "sorted_wrt (<) (allTimesOf (fst (parseLRCFile text)) (duration st))"
    using assms(2) by (rule allTimesOf_strict)
  obtain ts where a: "allTimesOf (fst (parseLRCFile text)) (duration st) = 0 # ts"
    and l: "last (0 # ts) = duration st" and ne: "ts \<noteq> []"
    by (simp add: allTimesOf_def)
  from buildSegments_chain [OF s [unfolded a]]
  have c: "chain 0 (segments st') (duration st)"
    unfolding h(2) a l .
  moreover from c assms(2) have "segments st' \<noteq> []" by auto
  ultimately show "partition_inv (duration st) (segments st')"
    by (simp add: chain_partition_inv)
qed

text \<open>The tolerance test at the times of the examples.\<close>

lemma nearStart_examples:
  "nearStart 5 0 = False" "nearStart (17 / 2) 0 = False" "nearStart 5 5 = True"
  "nearStart 5 (17 / 2) = False" "nearStart (17 / 2) 5 = False"
  "nearStart (17 / 2) (17 / 2) = True"
  by code_simp+

lemmas import_eval = handleLrcImport_def allTimesOf_def segmentTextId_def randomUUID_def
  nearStart_examples

text \<open>
  C3. The claim reads the line \<open>[00:05.00]Hi[00:08.50]\<close> as the entries (5.00, Hi) and
  (8.50, empty text), and leaves the segment from 8.50 without a text. \<open>parseLRCFile\<close>
  strips every tag from the line and gives the text that is left to each tag of the
  line, so the second entry carries Hi as well, and the segment that starts at 8.50
  references a block.
\<close>

theorem import_example_counterexample:
  "fst (parseLRCFile ''[00:05.00]Hi[00:08.50]'') \<noteq>
     [\<lparr>entry_time = 5, entry_text = ''Hi''\<rparr>, \<lparr>entry_time = 17 / 2, entry_text = ''''\<rparr>]
   \<and> textId (segments (snd (handleLrcImport ''[00:05.00]Hi[00:08.50]''
                             (initialApp\<lparr>duration := 10\<rparr>))) ! 2) \<noteq> None"
proof -
  have p: "parseLRCFile ''[00:05.00]Hi[00:08.50]'' =
     ([\<lparr>entry_time = 5, entry_text = ''Hi''\<rparr>, \<lparr>entry_time = 17 / 2, entry_text = ''Hi''\<rparr>],
      17 / 2)"
    by code_simp
  show ?thesis
    by (simp add: import_eval initialApp_def p)
qed

text \<open>
  C3, as the code has it: the two entries are (5.00, Hi) and (8.50, Hi). With a duration
  of 10 the boundaries are 0, 5.00, 8.50 and 10, the library holds two blocks with the
  text Hi, one per entry, the segment from 0 has no text, and the segments from 5.00 and
  from 8.50 both reference the first of the two blocks. This holds from every state.
\<close>

theorem import_example:
  "parseLRCFile ''[00:05.00]Hi[00:08.50]'' =
     ([\<lparr>entry_time = 5, entry_text = ''Hi''\<rparr>, \<lparr>entry_time = 17 / 2, entry_text = ''Hi''\<rparr>],
      17 / 2)
   \<and> handleLrcImport ''[00:05.00]Hi[00:08.50]'' (st\<lparr>duration := 10\<rparr>) =
     (ImportSuccess 2 2,
      st\<lparr>duration := 10, lrcDuration := 17 / 2, uuidCounter := uuidCounter st + 5,
         segments :=
           [\<lparr>seg_id = uuidCounter st + 2, startTime = 0, endTime = 5, textId = None\<rparr>,
            \<lparr>seg_id = uuidCounter st + 3, startTime = 5, endTime = 17 / 2,
              textId = Some (uuidCounter st)\<rparr>,
            \<lparr>seg_id = uuidCounter st + 4, startTime = 17 / 2, endTime = 10,
              textId = Some (uuidCounter st)\<rparr>],
         textBlocks :=
           [\<lparr>block_id = uuidCounter st, block_text = ''Hi''\<rparr>,
            \<lparr>block_id = uuidCounter st + 1, block_text = ''Hi''\<rparr>],
         importingLrc := False\<rparr>)"
proof -
  have p: "parseLRCFile ''[00:05.00]Hi[00:08.50]'' =
     ([\<lparr>entry_time = 5, entry_text = ''Hi''\<rparr>, \<lparr>entry_time = 17 / 2, entry_text = ''Hi''\<rparr>],
      17 / 2)"
    by code_simp
  show ?thesis
    by (simp add: import_eval p)
qed

text \<open>
  C2. The claim asks for boundaries without repetition and for segments with
  \<open>startTime < endTime\<close>. The two lines \<open>[00:05.00]A\<close> and \<open>[00:05.00]B\<close> give two
  entries that survive the removal of duplicates, which compares time and text; the time
  5 then stands twice among the boundaries, and the segment \<open>[5, 5)\<close> is built, from
  every state.
\<close>

theorem import_same_time_empty_segment:
  "parseLRCFile (''[00:05.00]A'' @ [newline] @ ''[00:05.00]B'') =
     ([\<lparr>entry_time = 5, entry_text = ''A''\<rparr>, \<lparr>entry_time = 5, entry_text = ''B''\<rparr>], 5)
   \<and> segments (snd (handleLrcImport (''[00:05.00]A'' @ [newline] @ ''[00:05.00]B'')
                      (st\<lparr>duration := 10\<rparr>))) =
       [\<lparr>seg_id = uuidCounter st + 2, startTime = 0, endTime = 5, textId = None\<rparr>,
        \<lparr>seg_id = uuidCounter st + 3, startTime = 5, endTime = 5, textId = Some (uuidCounter st)\<rparr>,
        \<lparr>seg_id = uuidCounter st + 4, startTime = 5, endTime = 10, textId = Some (uuidCounter st)\<rparr>]
   \<and> \<not> startTime (segments (snd (handleLrcImport (''[00:05.00]A'' @ [newline] @ ''[00:05.00]B'')
                      (st\<lparr>duration := 10\<rparr>))) ! 1)
         < endTime (segments (snd (handleLrcImport (''[00:05.00]A'' @ [newline] @ ''[00:05.00]B'')
                      (st\<lparr>duration := 10\<rparr>))) ! 1)"
proof -
  have p: "parseLRCFile (''[00:05.00]A'' @ [newline] @ ''[00:05.00]B'') =
     ([\<lparr>entry_time = 5, entry_text = ''A''\<rparr>, \<lparr>entry_time = 5, entry_text = ''B''\<rparr>], 5)"
    by code_simp
  have s: "segments (snd (handleLrcImport (''[00:05.00]A'' @ [newline] @ ''[00:05.00]B'')
                      (st\<lparr>duration := 10\<rparr>))) =
       [\<lparr>seg_id = uuidCounter st + 2, startTime = 0, endTime = 5, textId = None\<rparr>,
        \<lparr>seg_id = uuidCounter st + 3, startTime = 5, endTime = 5, textId = Some (uuidCounter st)\<rparr>,
        \<lparr>seg_id = uuidCounter st + 4, startTime = 5, endTime = 10, textId = Some (uuidCounter st)\<rparr>]"
    by (simp add: import_eval p [simplified])
  show ?thesis
    unfolding s using p by simp
qed

text \<open>
  C10. The claim lets every segment that starts at the time of an entry reference the
  first block with the text of that entry. The entry looked up for a segment is the
  first one that passes the tolerance test against its start, which need not be the
  entry that gave the boundary: with the lines \<open>[00:05.00]X\<close>, \<open>[00:05.01]A\<close> and
  \<open>[00:07.00]A\<close> the segment that starts at the time of the second entry references the
  block of X, not the first block with the text A. (The number read from 05.01 lies
  below 5.01, and its distance from 5 passes the test.)
\<close>

theorem import_text_assignment_counterexample:
  "map entry_text (fst (parseLRCFile
         (''[00:05.00]X'' @ [newline] @ ''[00:05.01]A'' @ [newline] @ ''[00:07.00]A''))) =
     [''X'', ''A'', ''A'']
   \<and> textBlocks (snd (handleLrcImport
         (''[00:05.00]X'' @ [newline] @ ''[00:05.01]A'' @ [newline] @ ''[00:07.00]A'')
         (initialApp\<lparr>duration := 10\<rparr>))) =
     [\<lparr>block_id = 0, block_text = ''X''\<rparr>, \<lparr>block_id = 1, block_text = ''A''\<rparr>,
      \<lparr>block_id = 2, block_text = ''A''\<rparr>]
   \<and> startTime (segments (snd (handleLrcImport
         (''[00:05.00]X'' @ [newline] @ ''[00:05.01]A'' @ [newline] @ ''[00:07.00]A'')
         (initialApp\<lparr>duration := 10\<rparr>))) ! 2) =
     entry_time (fst (parseLRCFile
         (''[00:05.00]X'' @ [newline] @ ''[00:05.01]A'' @ [newline] @ ''[00:07.00]A'')) ! 1)
   \<and> textId (segments (snd (handleLrcImport
         (''[00:05.00]X'' @ [newline] @ ''[00:05.01]A'' @ [newline] @ ''[00:07.00]A'')
         (initialApp\<lparr>duration := 10\<rparr>))) ! 2) = Some 0"
proof -
  let ?a = "2820379266640773 / 562949953421312 :: rat"
  let ?text = "''[00:05.00]X'' @ [newline] @ ''[00:05.01]A'' @ [newline] @ ''[00:07.00]A''"
  have p: "parseLRCFile ?text =
    ([\<lparr>entry_time = 5, entry_text = ''X''\<rparr>, \<lparr>entry_time = ?a, entry_text = ''A''\<rparr>,
      \<lparr>entry_time = 7, entry_text = ''A''\<rparr>], 7)"
    by code_simp
  have n: "nearStart 5 0 = False" "nearStart ?a 0 = False" "nearStart 7 0 = False"
    "nearStart 5 5 = True" "nearStart 5 ?a = True"
    "nearStart 5 7 = False" "nearStart ?a 7 = False" "nearStart 7 7 = True"
    by code_simp+
  have h: "snd (handleLrcImport ?text (initialApp\<lparr>duration := 10\<rparr>)) =
    \<lparr>duration = 10,
      segments =
        [\<lparr>seg_id = 3, startTime = 0, endTime = 5, textId = None\<rparr>,
         \<lparr>seg_id = 4, startTime = 5, endTime = ?a, textId = Some 0\<rparr>,
         \<lparr>seg_id = 5, startTime = ?a, endTime = 7, textId = Some 0\<rparr>,
         \<lparr>seg_id = 6, startTime = 7, endTime = 10, textId = Some 1\<rparr>],
      textBlocks =
        [\<lparr>block_id = 0, block_text = ''X''\<rparr>, \<lparr>block_id = 1, block_text = ''A''\<rparr>,
         \<lparr>block_id = 2, block_text = ''A''\<rparr>],
      lrcDuration = 7, importingLrc = False, uuidCounter = 7\<rparr>"
    by (simp add: handleLrcImport_def allTimesOf_def segmentTextId_def randomUUID_def
        initialApp_def p [simplified] n)
  show ?thesis
    unfolding h using p by simp
qed

text \<open>
  C10, as the code has it, after an import that succeeds with a known duration. The
  entry matched to a segment is the first entry that passes the test
  \<open>Math.abs(e.time - startTime) < 0.01\<close> of the code, as the code computes it
  (\<open>nearStart\<close>). A segment with a text reference has a matched entry with a text, and
  references the first block of the library with that text. A segment whose matched
  entry has a text references that first block; so when two entries share a text, the
  segments matched to either of them reference the same block. A block that repeats the
  text of an earlier block is referenced by no segment.
\<close>

theorem import_text_assignment:
  assumes "handleLrcImport text st = (ImportSuccess n k, st')" and "0 < duration st"
  shows "(\<forall>s\<in>set (segments st'). \<forall>i. textId s = Some i \<longrightarrow>
            (\<exists>e j. find (\<lambda>e. nearStart (entry_time e) (startTime s)) (fst (parseLRCFile text)) = Some e
                 \<and> entry_text e \<noteq> [] \<and> j < length (textBlocks st')
                 \<and> block_text (textBlocks st' ! j) = entry_text e
                 \<and> (\<forall>j'<j. block_text (textBlocks st' ! j') \<noteq> entry_text e)
                 \<and> block_id (textBlocks st' ! j) = i))
     \<and> (\<forall>s\<in>set (segments st'). \<forall>e.
            find (\<lambda>e. nearStart (entry_time e) (startTime s)) (fst (parseLRCFile text)) = Some e
            \<and> entry_text e \<noteq> [] \<longrightarrow>
            (\<exists>j<length (textBlocks st').
                 block_text (textBlocks st' ! j) = entry_text e
                 \<and> (\<forall>j'<j. block_text (textBlocks st' ! j') \<noteq> entry_text e)
                 \<and> textId s = Some (block_id (textBlocks st' ! j))))
     \<and> (\<forall>j<length (textBlocks st'). \<forall>j'<j.
            block_text (textBlocks st' ! j') = block_text (textBlocks st' ! j) \<longrightarrow>
            (\<forall>s\<in>set (segments st'). textId s \<noteq> Some (block_id (textBlocks st' ! j))))"
proof -
  define entries where "entries = fst (parseLRCFile text)"
  define tb where "tb = textBlocks st'"
  define withText where "withText = filter (\<lambda>entry. length (entry_text entry) > 0) entries"
  note h = handleLrcImport_success [OF assms, folded entries_def tb_def]
  from h(1) have texts: "map block_text tb = map entry_text withText"
    and ids: "\<forall>j<length withText. block_id (tb ! j) = uuidCounter st + j"
    using newTextBlocksOf_spec [of withText "st\<lparr>lrcDuration := snd (parseLRCFile text)\<rparr>"]
    by (simp_all add: withText_def)
  from texts have len: "length tb = length withText"
    by (metis length_map)
  have seg: "textId s = segmentTextId entries tb (startTime s)" if "s \<in> set (segments st')" for s
    using that unfolding h(2) by (rule buildSegments_textId)
  have id_inj: "j = j'" if "j < length tb" "j' < length tb" "block_id (tb ! j) = block_id (tb ! j')"
    for j j'
    using that ids len by simp
  \<comment> \<open>an assigned reference is the first block with the text of the matched entry\<close>
  have A: "\<exists>e j. find (\<lambda>e. nearStart (entry_time e) (startTime s)) entries = Some e
                 \<and> entry_text e \<noteq> [] \<and> j < length tb
                 \<and> block_text (tb ! j) = entry_text e
                 \<and> (\<forall>j'<j. block_text (tb ! j') \<noteq> entry_text e)
                 \<and> block_id (tb ! j) = i"
    if s: "s \<in> set (segments st')" and i: "textId s = Some i" for s i
  proof -
    from seg [OF s] i have "segmentTextId entries tb (startTime s) = Some i" by simp
    then obtain e b where e: "find (\<lambda>e. nearStart (entry_time e) (startTime s)) entries = Some e"
      and ne: "entry_text e \<noteq> []"
      and b: "find (\<lambda>b. block_text b = entry_text e) tb = Some b" and bi: "block_id b = i"
      by (auto simp: segmentTextId_def split: option.splits if_splits)
    from b obtain j where "j < length tb" "b = tb ! j" "block_text (tb ! j) = entry_text e"
      "\<forall>j'<j. block_text (tb ! j') \<noteq> entry_text e"
      unfolding find_first_index by blast
    with e ne bi show ?thesis by blast
  qed
  \<comment> \<open>a matched entry with a text always finds its block\<close>
  have B: "\<exists>j<length tb. block_text (tb ! j) = entry_text e
                 \<and> (\<forall>j'<j. block_text (tb ! j') \<noteq> entry_text e)
                 \<and> textId s = Some (block_id (tb ! j))"
    if s: "s \<in> set (segments st')"
      and e: "find (\<lambda>e. nearStart (entry_time e) (startTime s)) entries = Some e"
      and ne: "entry_text e \<noteq> []" for s e
  proof -
    from e have "e \<in> set entries" by (auto simp: find_Some_iff)
    with ne have "entry_text e \<in> set (map entry_text withText)"
      by (simp add: withText_def)
    with texts have "entry_text e \<in> set (map block_text tb)" by simp
    then obtain b where "b \<in> set tb" "block_text b = entry_text e" by auto
    then have "find (\<lambda>b. block_text b = entry_text e) tb \<noteq> None"
      by (auto simp: find_None_iff)
    then obtain b where b: "find (\<lambda>b. block_text b = entry_text e) tb = Some b" by blast
    then obtain j where j: "j < length tb" "b = tb ! j" "block_text (tb ! j) = entry_text e"
      "\<forall>j'<j. block_text (tb ! j') \<noteq> entry_text e"
      unfolding find_first_index by blast
    from seg [OF s] e ne b j(2) have "textId s = Some (block_id (tb ! j))"
      by (simp add: segmentTextId_def)
    with j show ?thesis by blast
  qed
  \<comment> \<open>so a block that repeats the text of an earlier one is never referenced\<close>
  have C: "textId s \<noteq> Some (block_id (tb ! j))"
    if j: "j < length tb" and j': "j' < j" and same: "block_text (tb ! j') = block_text (tb ! j)"
      and s: "s \<in> set (segments st')" for j j' s
  proof
    assume "textId s = Some (block_id (tb ! j))"
    from A [OF s this] obtain e :: LrcEntry and j0 where j0: "j0 < length tb"
      "block_text (tb ! j0) = entry_text e"
      "\<forall>j'<j0. block_text (tb ! j') \<noteq> entry_text e" "block_id (tb ! j0) = block_id (tb ! j)"
      by blast
    from id_inj [OF j0(1) j j0(4)] have "j0 = j" .
    with j0(2,3) j' same show False by auto
  qed
  show ?thesis
    unfolding entries_def [symmetric] tb_def [symmetric]
  proof (intro conjI ballI allI impI)
    fix s i
    assume "s \<in> set (segments st')" and "textId s = Some i"
    then show "\<exists>e j. find (\<lambda>e. nearStart (entry_time e) (startTime s)) entries = Some e
                 \<and> entry_text e \<noteq> [] \<and> j < length tb
                 \<and> block_text (tb ! j) = entry_text e
                 \<and> (\<forall>j'<j. block_text (tb ! j') \<noteq> entry_text e)
                 \<and> block_id (tb ! j) = i"
      by (rule A)
  next
    fix s e
    assume "s \<in> set (segments st')"
      and "find (\<lambda>e. nearStart (entry_time e) (startTime s)) entries = Some e
           \<and> entry_text e \<noteq> []"
    then show "\<exists>j<length tb. block_text (tb ! j) = entry_text e
                 \<and> (\<forall>j'<j. block_text (tb ! j') \<noteq> entry_text e)
                 \<and> textId s = Some (block_id (tb ! j))"
      using B [of s e] by simp
  next
    fix j j' s
    assume "j < length tb" and "j' < j" and "block_text (tb ! j') = block_text (tb ! j)"
      and "s \<in> set (segments st')"
    then show "textId s \<noteq> Some (block_id (tb ! j))"
      by (rule C)
  qed
qed

theorem import_text_assignment_witness:
  "handleLrcImport (''[00:05.00]A'' @ [newline] @ ''[00:07.00]A'') (initialApp\<lparr>duration := 10\<rparr>) =
     (ImportSuccess 2 2,
      \<lparr>duration = 10,
        segments =
          [\<lparr>seg_id = 2, startTime = 0, endTime = 5, textId = None\<rparr>,
           \<lparr>seg_id = 3, startTime = 5, endTime = 7, textId = Some 0\<rparr>,
           \<lparr>seg_id = 4, startTime = 7, endTime = 10, textId = Some 0\<rparr>],
        textBlocks =
          [\<lparr>block_id = 0, block_text = ''A''\<rparr>, \<lparr>block_id = 1, block_text = ''A''\<rparr>],
        lrcDuration = 7, importingLrc = False, uuidCounter = 5\<rparr>)
   \<and> textId \<lparr>seg_id = 4, startTime = 7, endTime = 10, textId = Some 0\<rparr> \<noteq> Some 1"
proof -
  let ?text = "''[00:05.00]A'' @ [newline] @ ''[00:07.00]A''"
  let ?st = "initialApp\<lparr>duration := 10\<rparr>"
  let ?st' = "\<lparr>duration = 10,
        segments =
          [\<lparr>seg_id = 2, startTime = 0, endTime = 5, textId = None\<rparr>,
           \<lparr>seg_id = 3, startTime = 5, endTime = 7, textId = Some 0\<rparr>,
           \<lparr>seg_id = 4, startTime = 7, endTime = 10, textId = Some 0\<rparr>],
        textBlocks =
          [\<lparr>block_id = 0, block_text = ''A''\<rparr>, \<lparr>block_id = 1, block_text = ''A''\<rparr>],
        lrcDuration = 7, importingLrc = False, uuidCounter = 5\<rparr>"
  have p: "parseLRCFile ?text =
      ([\<lparr>entry_time = 5, entry_text = ''A''\<rparr>, \<lparr>entry_time = 7, entry_text = ''A''\<rparr>], 7)"
    by code_simp
  have n: "nearStart 5 0 = False" "nearStart 7 0 = False" "nearStart 5 5 = True"
    "nearStart 5 7 = False" "nearStart 7 7 = True"
    by code_simp+
  have e: "handleLrcImport ?text ?st = (ImportSuccess 2 2, ?st')"
    by (simp add: handleLrcImport_def allTimesOf_def segmentTextId_def randomUUID_def
        initialApp_def p [simplified] n)
  have d: "0 < duration ?st" by (simp add: initialApp_def)
  from import_text_assignment [OF e d]
  have "\<forall>j<length (textBlocks ?st'). \<forall>j'<j.
            block_text (textBlocks ?st' ! j') = block_text (textBlocks ?st' ! j) \<longrightarrow>
            (\<forall>s\<in>set (segments ?st'). textId s \<noteq> Some (block_id (textBlocks ?st' ! j)))"
    by blast
  from this [rule_format, of 1 0 "\<lparr>seg_id = 4, startTime = 7, endTime = 10, textId = Some 0\<rparr>"]
  have "textId \<lparr>seg_id = 4, startTime = 7, endTime = 10, textId = Some 0\<rparr> \<noteq> Some 1"
    by simp
  with e show ?thesis by blast
qed

end
